theory Spec2Isabelle
  imports Main
begin

section \<open>Tokens and positions\<close>

text \<open>
  The token kinds of package \<^verbatim>\<open>token\<close>: the kinds of the host language and the three
  kinds the indented form adds (\<^verbatim>\<open>INDENT\<close>, \<^verbatim>\<open>DEDENT\<close>, \<^verbatim>\<open>DO\<close>).
\<close>

datatype (plugins only: code) token =
    ILLEGAL | EOF | COMMENT
  | IDENT | INT_tok | FLOAT | IMAG | CHAR_tok | STRING
  | ADD | SUB | MUL | QUO | REM
  | AND | OR | XOR | SHL | SHR | AND_NOT
  | ADD_ASSIGN | SUB_ASSIGN | MUL_ASSIGN | QUO_ASSIGN | REM_ASSIGN
  | AND_ASSIGN | OR_ASSIGN | XOR_ASSIGN | SHL_ASSIGN | SHR_ASSIGN | AND_NOT_ASSIGN
  | LAND | LOR | ARROW | INC | DEC
  | EQL | LSS | GTR | ASSIGN | NOT
  | NEQ | LEQ | GEQ | DEFINE | ELLIPSIS
  | LPAREN | LBRACK | LBRACE | COMMA | PERIOD
  | RPAREN | RBRACK | RBRACE | SEMICOLON | COLON
  | BREAK | CASE | CHAN | CONST_tok | CONTINUE
  | DEFAULT | DEFER | ELSE | FALLTHROUGH | FOR
  | FUNC | GO | GOTO | IF | IMPORT
  | INTERFACE | MAP | PACKAGE | RANGE | RETURN
  | SELECT | STRUCT | SWITCH | TYPE_tok | VAR
  | INDENT | DEDENT | DO

text \<open>
  Modelled from the spec: \<^verbatim>\<open>Token.IsLiteral\<close> of package \<^verbatim>\<open>token\<close>, which the
  sources do not include. The literal classes are identifiers and the basic literals.
\<close>

definition IsLiteral :: "token \<Rightarrow> bool" where
  "IsLiteral t = (t = IDENT \<or> t = INT_tok \<or> t = FLOAT \<or> t = IMAG \<or> t = CHAR_tok \<or> t = STRING)"

text \<open>
  Modelled from the spec: \<^verbatim>\<open>token.Pos\<close>, \<^verbatim>\<open>token.NoPos\<close> and \<^verbatim>\<open>Pos.IsValid\<close>, which the
  sources do not include. A position is an integer offset into the file set; zero is the
  invalid position.
\<close>

type_synonym Pos = int

definition NoPos :: Pos where
  "NoPos = 0"

definition IsValid :: "Pos \<Rightarrow> bool" where
  "IsValid p = (p \<noteq> NoPos)"

record position =
  Filename :: string
  Offset :: int
  Line :: int
  Column :: int

text \<open>
  The parser reads its \<^verbatim>\<open>token.File\<close> through \<^verbatim>\<open>Position\<close> and \<^verbatim>\<open>Line\<close> only, and
  renders positions and tokens with their \<^verbatim>\<open>String\<close> methods. None of the four is part of
  the sources; they are taken as given functions.
\<close>

record tokenFile =
  Position :: "Pos \<Rightarrow> position"
  LineOf :: "Pos \<Rightarrow> int"
  PositionString :: "position \<Rightarrow> string"
  TokenString :: "token \<Rightarrow> string"

section \<open>Syntax trees\<close>

text \<open>
  An identifier node carries its position and name, which are never written after the node
  is made, and the address of the cell that holds its mutable \<^verbatim>\<open>Obj\<close> link. Two
  identifier nodes are the same node exactly when they have the same cell.
\<close>

record ident =
  NamePos :: Pos
  Name :: string
  ObjCell :: nat

record comment =
  Slash :: Pos
  Text :: string

type_synonym commentGroup = "comment list"

record basicLit =
  ValuePos :: Pos
  LitKind :: token
  Value :: string

datatype chanDir = SEND | RECV | SEND_RECV

text \<open>
  The node kinds of package \<^verbatim>\<open>ast\<close>, with the fields the parser fills in. A pointer or
  interface field that the parser may leave \<^verbatim>\<open>nil\<close> is an \<open>option\<close>. A slice is a
  list, and the \<^verbatim>\<open>nil\<close> slice is the empty list, except for \<^verbatim>\<open>ValueSpec.Values\<close>, which
  the printer tests against \<^verbatim>\<open>nil\<close>.
\<close>

datatype (plugins only: code size) expr =
    BadExpr Pos Pos
  | Ident ident
  | Ellipsis Pos "expr option"
  | BasicLit basicLit
  | FuncLit funcType blockStmt
  | CompositeLit "expr option" Pos "expr list" Pos
  | ParenExpr Pos expr Pos
  | SelectorExpr expr ident
  | IndexExpr expr Pos "expr option" Pos
  | SliceExpr expr Pos "expr option" "expr option" Pos
  | TypeAssertExpr expr "expr option"
  | CallExpr (CallFun: expr) (Lparen: Pos) (Args: "expr list") (EllipsisPos: Pos) (Rparen: Pos)
  | StarExpr Pos expr
  | UnaryExpr Pos token expr
  | BinaryExpr expr Pos token expr
  | KeyValueExpr expr Pos expr
  | ArrayType Pos "expr option" expr
  | StructType Pos fieldList
  | FuncTypeExpr funcType
  | InterfaceType Pos fieldList
  | MapType Pos expr expr
  | ChanType Pos Pos chanDir expr
and funcType =
    FuncType (Func: Pos) (Params: "fieldList option") (Results: "fieldList option")
and fieldList =
    FieldList (Opening: Pos) (Fields: "field list") (Closing: Pos)
and field =
    Field (Doc: "commentGroup option") (Names: "ident list") (Type: expr)
      (Tag: "basicLit option") (Comment: "commentGroup option")
and blockStmt =
    BlockStmt (BlockOpening: Pos) (Stmts: "stmt list") (BlockClosing: Pos) (Small: bool)
and stmt =
    BadStmt Pos Pos
  | DeclStmt decl
  | EmptyStmt Pos
  | LabeledStmt ident Pos stmt
  | ExprStmt expr
  | SendStmt expr Pos expr
  | IncDecStmt expr Pos token
  | AssignStmt "expr list" Pos token "expr list"
  | GoStmt Pos expr
  | DeferStmt Pos expr
  | ReturnStmt Pos "expr list"
  | BranchStmt Pos token "ident option"
  | Block blockStmt
  | IfStmt Pos "stmt option" expr blockStmt "stmt option"
  | CaseClause Pos "expr list" Pos "stmt list"
  | SwitchStmt Pos "stmt option" "expr option" blockStmt
  | TypeSwitchStmt Pos "stmt option" stmt blockStmt
  | CommClause Pos "stmt option" Pos "stmt list"
  | SelectStmt Pos blockStmt
  | ForStmt Pos "stmt option" "expr option" "stmt option" blockStmt
  | RangeStmt Pos expr "expr option" Pos token expr blockStmt
and decl =
    BadDecl Pos Pos
  | GenDecl "commentGroup option" Pos token Pos "spec list" Pos
  | FuncDecl (FuncDoc: "commentGroup option") (Recv: "fieldList option") (FuncName: ident)
      (FuncTyp: funcType) (Body: "blockStmt option")
and spec =
    ImportSpec "commentGroup option" "ident option" "basicLit option" "commentGroup option"
  | ValueSpec "commentGroup option" "ident list" "expr option" "expr list option"
      "commentGroup option"
  | TypeSpec "commentGroup option" ident "expr option" "commentGroup option"


section \<open>Objects, scopes and the store\<close>

datatype objKind = Bad | Pkg | Con | Typ | Var | Fun | Lbl

text \<open>
  A pointer to an \<^verbatim>\<open>Object\<close> is \<^verbatim>\<open>nil\<close>, the sentinel \<^verbatim>\<open>unresolved\<close> (one
  object allocated once for the package and compared by address), or the address of an
  object of the store.
\<close>

datatype objptr = ObjNil | ObjUnresolved | ObjAt nat

text \<open>
  \<^verbatim>\<open>Object.Decl\<close> is the declaring node (a field, a spec, a function declaration, a
  labeled statement, an assignment, a scope, or \<^verbatim>\<open>nil\<close>), held here as the node's value
  when \<^verbatim>\<open>declare\<close> is called. \<^verbatim>\<open>Object.Data\<close> is \<^verbatim>\<open>nil\<close> or the \<^verbatim>\<open>iota\<close> of a
  value spec. \<^verbatim>\<open>Object.Type\<close> is never written by the parser and is left out.
\<close>

datatype declNode =
    NoDecl | FieldNode field | SpecNode spec | DeclNode decl | StmtNode stmt | ScopeNode nat

datatype objData = NoData | IntData int

record object =
  ObjKind :: objKind
  ObjName :: string
  ObjDecl :: declNode
  ObjData :: objData

definition NewObj :: "objKind \<Rightarrow> string \<Rightarrow> object" where
  "NewObj kind name = \<lparr>ObjKind = kind, ObjName = name, ObjDecl = NoDecl, ObjData = NoData\<rparr>"

record scope =
  Outer :: "nat option"
  Objects :: "string \<rightharpoonup> objptr"

definition Lookup :: "scope \<Rightarrow> string \<Rightarrow> objptr" where
  "Lookup s name = (case Objects s name of None \<Rightarrow> ObjNil | Some obj \<Rightarrow> obj)"

text \<open>
  \<^verbatim>\<open>Scope.Insert\<close>: the object \<open>obj\<close> is entered under its name unless the scope has
  an object of that name; the result is that earlier object, or \<^verbatim>\<open>nil\<close>.
\<close>

definition Insert :: "scope \<Rightarrow> string \<Rightarrow> objptr \<Rightarrow> objptr \<times> scope" where
  "Insert s name obj =
     (let alt = Lookup s name
      in if alt = ObjNil then (alt, s\<lparr>Objects := (Objects s)(name \<mapsto> obj)\<rparr>) else (alt, s))"

text \<open>
  The store: the \<^verbatim>\<open>Obj\<close> cells of the identifier nodes, the objects and the scopes, each
  addressed by its index. Allocation appends.
\<close>

record store =
  cells :: "objptr list"
  objects :: "object list"
  scopes :: "scope list"

text \<open>
  How execution ends other than by returning: \<^verbatim>\<open>panic(bailout{})\<close>, a panic with a string
  value, a run-time panic (a \<^verbatim>\<open>nil\<close> dereference, an index out of range, a failed type
  assertion), or a loop that never ends.
\<close>

datatype abort = Bailout | PanicString string | RuntimePanic | Diverge

text \<open>\<^verbatim>\<open>Object.Pos\<close>.\<close>

fun findName :: "ident list \<Rightarrow> string \<Rightarrow> Pos option" where
  "findName [] name = None"
| "findName (n # ns) name = (if Name n = name then Some (NamePos n) else findName ns name)"

fun findLhs :: "expr list \<Rightarrow> string \<Rightarrow> Pos option" where
  "findLhs [] name = None"
| "findLhs (Ident i # xs) name = (if Name i = name then Some (NamePos i) else findLhs xs name)"
| "findLhs (x # xs) name = findLhs xs name"

fun ObjectPos :: "object \<Rightarrow> abort + Pos" where
  "ObjectPos obj =
     (let name = ObjName obj in
      case ObjDecl obj of
        FieldNode d \<Rightarrow>
          (case findName (Names d) name of Some p \<Rightarrow> Inr p | None \<Rightarrow> Inr NoPos)
      | SpecNode (ImportSpec doc nm path cmt) \<Rightarrow>
          (if nm \<noteq> None \<and> Name (the nm) = name then Inr (NamePos (the nm))
           else case path of None \<Rightarrow> Inl RuntimePanic | Some l \<Rightarrow> Inr (ValuePos l))
      | SpecNode (ValueSpec doc names typ vals cmt) \<Rightarrow>
          (case findName names name of Some p \<Rightarrow> Inr p | None \<Rightarrow> Inr NoPos)
      | SpecNode (TypeSpec doc nm typ cmt) \<Rightarrow>
          (if Name nm = name then Inr (NamePos nm) else Inr NoPos)
      | DeclNode (FuncDecl doc recv nm typ body) \<Rightarrow>
          (if Name nm = name then Inr (NamePos nm) else Inr NoPos)
      | StmtNode (LabeledStmt label colon s) \<Rightarrow>
          (if Name label = name then Inr (NamePos label) else Inr NoPos)
      | StmtNode (AssignStmt lhs tokpos tk rhs) \<Rightarrow>
          (case findLhs lhs name of Some p \<Rightarrow> Inr p | None \<Rightarrow> Inr NoPos)
      | _ \<Rightarrow> Inr NoPos)"

section \<open>The parser state\<close>

datatype modeFlag =
    PackageClauseOnly | ImportsOnly | ParseComments | Trace | DeclarationErrors | AllErrors

record perror =
  ErrPos :: position
  Msg :: string

text \<open>
  What one call of \<^verbatim>\<open>Scanner.Scan\<close> yields: position, token and literal, and the errors
  the scanner hands to the parser's error handler during the call.
\<close>

record scanned =
  ScanPos :: Pos
  ScanTok :: token
  ScanLit :: string
  ScanErrs :: "perror list"

text \<open>
  The parser structure. The scanner is the sequence \<open>input\<close> of its remaining results; once
  they are used up it yields \<^verbatim>\<open>EOF\<close> at \<open>srcEnd\<close>. The fields \<^verbatim>\<open>trace\<close> and \<^verbatim>\<open>indent\<close>
  only drive the trace printed while parsing, which is not modelled, and \<^verbatim>\<open>call\<close> and
  \<^verbatim>\<open>inDo\<close> are neither read nor written by the parser.
\<close>

record parser =
  tfile :: tokenFile
  errors :: "perror list"
  input :: "scanned list"
  srcEnd :: Pos
  mode :: "modeFlag set"
  comments :: "commentGroup list"
  leadComment :: "commentGroup option"
  lineComment :: "commentGroup option"
  pos :: Pos
  tok :: token
  ptok :: token
  lit :: string
  syncPos :: Pos
  syncCnt :: int
  exprLev :: int
  inRhs :: bool
  allowEmptyBlock :: bool
  pkgScope :: "nat option"
  topScope :: "nat option"
  unresolved :: "ident list"
  importSpecs :: "spec list"
  labelScope :: "nat option"
  targetStack :: "ident list list"
  heap :: store

type_synonym 'a result = "abort + 'a \<times> parser"

section \<open>Advancing, with comments\<close>

definition next0 :: "parser \<Rightarrow> parser" where
  "next0 p =
     (case input p of
        [] \<Rightarrow> p\<lparr>ptok := tok p, pos := srcEnd p, tok := EOF, lit := []\<rparr>
      | s # rest \<Rightarrow>
          p\<lparr>ptok := tok p, pos := ScanPos s, tok := ScanTok s, lit := ScanLit s,
            errors := errors p @ ScanErrs s, input := rest\<rparr>)"

definition consumeComment :: "parser \<Rightarrow> (comment \<times> int) \<times> parser" where
  "consumeComment p =
     ((\<lparr>Slash = pos p, Text = lit p\<rparr>, LineOf (tfile p) (pos p)), next0 p)"

text \<open>What the scanner has left to give, counting the current token unless it is \<^verbatim>\<open>EOF\<close>.\<close>

definition scanLeft :: "parser \<Rightarrow> nat" where
  "scanLeft p = length (input p) + (if tok p = EOF then 0 else 1)"

lemma scanLeft_next0: "tok p \<noteq> EOF \<Longrightarrow> scanLeft (next0 p) < scanLeft p"
  by (cases "input p") (simp_all add: scanLeft_def next0_def)

lemma scanLeft_next0_le: "scanLeft (next0 p) \<le> scanLeft p"
  by (cases "input p") (simp_all add: scanLeft_def next0_def)

text \<open>The loop of \<^verbatim>\<open>consumeCommentGroup\<close>.\<close>

function consumeComments ::
  "int \<Rightarrow> comment list \<Rightarrow> int \<Rightarrow> parser \<Rightarrow> (comment list \<times> int) \<times> parser" where
  "consumeComments n list endline p =
     (if tok p = COMMENT \<and> LineOf (tfile p) (pos p) \<le> endline + n
      then consumeComments n (list @ [fst (fst (consumeComment p))])
             (snd (fst (consumeComment p))) (snd (consumeComment p))
      else ((list, endline), p))"
  by pat_completeness auto
termination
  apply (relation "measure (\<lambda>(n, list, endline, p). scanLeft p)")
   apply simp
  apply (simp add: consumeComment_def scanLeft_next0)
  done

declare consumeComments.simps [simp del]

definition consumeCommentGroup :: "int \<Rightarrow> parser \<Rightarrow> (commentGroup \<times> int) \<times> parser" where
  "consumeCommentGroup n p =
     (case consumeComments n [] (LineOf (tfile p) (pos p)) p of
        ((list, endline), p1) \<Rightarrow> ((list, endline), p1\<lparr>comments := comments p1 @ [list]\<rparr>))"

lemma scanLeft_consumeComments:
  "scanLeft (snd (consumeComments n list endline p)) \<le> scanLeft p"
proof (induction n list endline p rule: consumeComments.induct)
  case (1 n list endline p)
  show ?case
  proof (cases "tok p = COMMENT \<and> LineOf (tfile p) (pos p) \<le> endline + n")
    case True
    then have "scanLeft (snd (consumeComments n list endline p))
        \<le> scanLeft (snd (consumeComment p))"
      using "1.IH" by (subst consumeComments.simps) simp
    also have "\<dots> \<le> scanLeft p"
      by (simp add: consumeComment_def scanLeft_next0_le)
    finally show ?thesis .
  next
    case False
    then show ?thesis by (subst consumeComments.simps) auto
  qed
qed

lemma scanLeft_consumeCommentGroup:
  assumes "tok p = COMMENT" and "0 \<le> n"
  shows "scanLeft (snd (consumeCommentGroup n p)) < scanLeft p"
proof -
  let ?q = "snd (consumeComment p)"
  let ?r = "consumeComments n [fst (fst (consumeComment p))] (snd (fst (consumeComment p))) ?q"
  have step: "consumeComments n [] (LineOf (tfile p) (pos p)) p = ?r"
    using assms by (subst consumeComments.simps) simp
  have "scanLeft (snd ?r) \<le> scanLeft ?q"
    by (rule scanLeft_consumeComments)
  also have "\<dots> < scanLeft p"
    using assms by (simp add: consumeComment_def scanLeft_next0)
  finally have "scanLeft (snd ?r) < scanLeft p" .
  moreover have "scanLeft (snd (consumeCommentGroup n p)) = scanLeft (snd ?r)"
    by (simp add: consumeCommentGroup_def step scanLeft_def split: prod.splits)
  ultimately show ?thesis by simp
qed

text \<open>The loop of \<^verbatim>\<open>next\<close> over the comment groups that follow.\<close>

function nextGroups ::
  "commentGroup option \<Rightarrow> int \<Rightarrow> parser \<Rightarrow> (commentGroup option \<times> int) \<times> parser" where
  "nextGroups cmt endline p =
     (if tok p = COMMENT
      then nextGroups (Some (fst (fst (consumeCommentGroup 1 p))))
             (snd (fst (consumeCommentGroup 1 p))) (snd (consumeCommentGroup 1 p))
      else ((cmt, endline), p))"
  by pat_completeness auto
termination
  apply (relation "measure (\<lambda>(cmt, endline, p). scanLeft p)")
   apply simp
  apply (simp add: scanLeft_consumeCommentGroup)
  done

declare nextGroups.simps [simp del]

text \<open>\<^verbatim>\<open>parser.next\<close>.\<close>

definition next_tok :: "parser \<Rightarrow> parser" where
  "next_tok p =
     (let prev = pos p;
          p1 = next0 (p\<lparr>leadComment := None, lineComment := None\<rparr>)
      in if tok p1 = COMMENT then
           (let first =
                  (if LineOf (tfile p1) (pos p1) = LineOf (tfile p1) prev then
                     (case consumeCommentGroup 0 p1 of
                        ((c, e), q) \<Rightarrow>
                          (Some c,
                           if LineOf (tfile q) (pos q) \<noteq> e then q\<lparr>lineComment := Some c\<rparr>
                           else q))
                   else (None, p1));
                rest = nextGroups (fst first) (- 1) (snd first);
                p3 = snd rest
            in if snd (fst rest) + 1 = LineOf (tfile p3) (pos p3)
               then p3\<lparr>leadComment := fst (fst rest)\<rparr> else p3)
         else p1)"

lemma scanLeft_update [simp]:
  "scanLeft (p\<lparr>leadComment := a\<rparr>) = scanLeft p"
  "scanLeft (p\<lparr>lineComment := a\<rparr>) = scanLeft p"
  "scanLeft (p\<lparr>comments := c\<rparr>) = scanLeft p"
  by (simp_all add: scanLeft_def)

lemma scanLeft_consumeCommentGroup_le:
  "scanLeft (snd (consumeCommentGroup n p)) \<le> scanLeft p"
proof -
  have "scanLeft (snd (consumeCommentGroup n p))
      = scanLeft (snd (consumeComments n [] (LineOf (tfile p) (pos p)) p))"
    by (simp add: consumeCommentGroup_def split: prod.splits)
  then show ?thesis by (simp add: scanLeft_consumeComments)
qed

lemma scanLeft_nextGroups: "scanLeft (snd (nextGroups cmt endline p)) \<le> scanLeft p"
proof (induction cmt endline p rule: nextGroups.induct)
  case (1 cmt endline p)
  show ?case
  proof (cases "tok p = COMMENT")
    case True
    then have "scanLeft (snd (nextGroups cmt endline p))
        \<le> scanLeft (snd (consumeCommentGroup 1 p))"
      using "1.IH" by (subst nextGroups.simps) simp
    also have "\<dots> \<le> scanLeft p"
      by (rule scanLeft_consumeCommentGroup_le)
    finally show ?thesis .
  next
    case False
    then show ?thesis by (subst nextGroups.simps) simp
  qed
qed

lemma scanLeft_next_tok_le: "scanLeft (next_tok p) \<le> scanLeft p"
proof -
  let ?p1 = "next0 (p\<lparr>leadComment := None, lineComment := None\<rparr>)"
  have a: "scanLeft ?p1 \<le> scanLeft p"
    using scanLeft_next0_le [of "p\<lparr>leadComment := None, lineComment := None\<rparr>"] by simp
  have b: "scanLeft (snd (consumeCommentGroup 0 ?p1)) \<le> scanLeft p"
    using scanLeft_consumeCommentGroup_le [of 0 ?p1] a by simp
  have c: "scanLeft (snd (nextGroups x e q)) \<le> scanLeft p" if "scanLeft q \<le> scanLeft p"
    for x e q
    using scanLeft_nextGroups [of x e q] that by simp
  show ?thesis
    unfolding next_tok_def Let_def
    by (auto simp: a b case_prod_beta intro!: c)
qed

lemma scanLeft_next_tok: "tok p \<noteq> EOF \<Longrightarrow> scanLeft (next_tok p) < scanLeft p"
proof -
  assume t: "tok p \<noteq> EOF"
  let ?p1 = "next0 (p\<lparr>leadComment := None, lineComment := None\<rparr>)"
  have a: "scanLeft ?p1 < scanLeft p"
    using scanLeft_next0 [of "p\<lparr>leadComment := None, lineComment := None\<rparr>"] t by simp
  have b: "scanLeft (snd (consumeCommentGroup 0 ?p1)) < scanLeft p"
    using scanLeft_consumeCommentGroup_le [of 0 ?p1] a by simp
  have c: "scanLeft (snd (nextGroups x e q)) < scanLeft p" if "scanLeft q < scanLeft p"
    for x e q
    using scanLeft_nextGroups [of x e q] that by simp
  show ?thesis
    unfolding next_tok_def Let_def
    by (auto simp: a b case_prod_beta intro!: c)
qed

section \<open>Errors\<close>

definition apostrophe :: string where
  "apostrophe = [CHR 0x27]"

definition newline :: string where
  "newline = [CHR 0x0A]"

definition tab :: string where
  "tab = [CHR 0x09]"

text \<open>
  Modelled from the spec: \<^verbatim>\<open>ErrorList.Add\<close> of package \<^verbatim>\<open>scanner\<close>, which the sources do
  not include. Errors are collected in a list; \<^verbatim>\<open>Add\<close> appends one.
\<close>

definition Add :: "perror list \<Rightarrow> position \<Rightarrow> string \<Rightarrow> perror list" where
  "Add l ps msg = l @ [\<lparr>ErrPos = ps, Msg = msg\<rparr>]"

text \<open>\<^verbatim>\<open>parser.error\<close>.\<close>

definition error :: "parser \<Rightarrow> Pos \<Rightarrow> string \<Rightarrow> abort + parser" where
  "error p ps msg =
     (let epos = Position (tfile p) ps in
      if AllErrors \<notin> mode p then
        (let n = length (errors p) in
         if n > 0 \<and> Line (ErrPos (errors p ! (n - 1))) = Line epos then Inr p
         else if n > 10 then Inl Bailout
         else Inr (p\<lparr>errors := Add (errors p) epos msg\<rparr>))
      else Inr (p\<lparr>errors := Add (errors p) epos msg\<rparr>))"

definition isIndent :: "parser \<Rightarrow> bool" where
  "isIndent p = (tok p = SEMICOLON \<and> lit p = newline)"

text \<open>
  \<^verbatim>\<open>parser.errorExpected\<close>. It ends in \<^verbatim>\<open>panic(fmt.Sprintf("%s %s", ...))\<close>; the call
  of \<^verbatim>\<open>p.error\<close> after it is commented out in the source.
\<close>

definition errorExpected :: "parser \<Rightarrow> Pos \<Rightarrow> string \<Rightarrow> abort + parser" where
  "errorExpected p ps msg0 =
     (let msg = ''expected '' @ msg0;
          msg1 =
            (if ps = pos p then
               (if isIndent p then msg @ '', found newline''
                else (let m = msg @ '', found '' @ apostrophe @ TokenString (tfile p) (tok p)
                                @ apostrophe
                      in if IsLiteral (tok p) then m @ '' '' @ lit p else m))
             else msg)
      in Inl (PanicString (PositionString (tfile p) (Position (tfile p) ps) @ '' '' @ msg1)))"

definition expect :: "parser \<Rightarrow> token \<Rightarrow> Pos result" where
  "expect p t =
     (let ps = pos p in
      if tok p \<noteq> t then
        (case errorExpected p ps (apostrophe @ TokenString (tfile p) t @ apostrophe) of
           Inl e \<Rightarrow> Inl e
         | Inr p1 \<Rightarrow> Inr (ps, next_tok p1))
      else Inr (ps, next_tok p))"

definition expectClosing :: "parser \<Rightarrow> token \<Rightarrow> string \<Rightarrow> Pos result" where
  "expectClosing p t context =
     (if tok p \<noteq> t \<and> isIndent p then
        (case error p (pos p)
                (''missing '' @ apostrophe @ '','' @ apostrophe @ '' before newline in '' @ context) of
           Inl e \<Rightarrow> Inl e
         | Inr p1 \<Rightarrow> expect (next_tok p1) t)
      else expect p t)"

definition assert :: "bool \<Rightarrow> string \<Rightarrow> abort + unit" where
  "assert cond msg =
     (if \<not> cond then Inl (PanicString (''go/parser internal error: '' @ msg)) else Inr ())"

text \<open>\<^verbatim>\<open>syncStmt\<close> and \<^verbatim>\<open>syncDecl\<close>.\<close>

function syncStmt :: "parser \<Rightarrow> parser" where
  "syncStmt p =
     (if tok p \<in> {BREAK, CONST_tok, CONTINUE, DEFER, FALLTHROUGH, FOR, GO, GOTO, IF, RETURN,
                   SELECT, SWITCH, TYPE_tok, VAR} then
        (if pos p = syncPos p \<and> syncCnt p < 10 then p\<lparr>syncCnt := syncCnt p + 1\<rparr>
         else if pos p > syncPos p then p\<lparr>syncPos := pos p, syncCnt := 0\<rparr>
         else syncStmt (next_tok p))
      else if tok p = EOF then p
      else syncStmt (next_tok p))"
  by pat_completeness auto
termination
  apply (relation "measure scanLeft")
    apply simp
   apply (rule in_measure [THEN iffD2], rule scanLeft_next_tok, fastforce)
  apply (rule in_measure [THEN iffD2], rule scanLeft_next_tok, simp)
  done

declare syncStmt.simps [simp del]

function syncDecl :: "parser \<Rightarrow> parser" where
  "syncDecl p =
     (if tok p \<in> {CONST_tok, TYPE_tok, VAR} then
        (if pos p = syncPos p \<and> syncCnt p < 10 then p\<lparr>syncCnt := syncCnt p + 1\<rparr>
         else if pos p > syncPos p then p\<lparr>syncPos := pos p, syncCnt := 0\<rparr>
         else syncDecl (next_tok p))
      else if tok p = EOF then p
      else syncDecl (next_tok p))"
  by pat_completeness auto
termination
  apply (relation "measure scanLeft")
    apply simp
   apply (rule in_measure [THEN iffD2], rule scanLeft_next_tok, fastforce)
  apply (rule in_measure [THEN iffD2], rule scanLeft_next_tok, simp)
  done

declare syncDecl.simps [simp del]

definition expectSemi :: "parser \<Rightarrow> abort + parser" where
  "expectSemi p =
     (if tok p \<noteq> RPAREN \<and> tok p \<noteq> RBRACE \<and> tok p \<noteq> DEDENT then
        (if tok p = SEMICOLON then Inr (next_tok p)
         else if ptok p = SEMICOLON then Inr p
         else if ptok p = COMMENT then Inr p
         else if ptok p = DEDENT then Inr p
         else (case errorExpected p (pos p) (apostrophe @ '';'' @ apostrophe) of
                 Inl e \<Rightarrow> Inl e
               | Inr p1 \<Rightarrow> Inr (syncStmt p1)))
      else Inr p)"

definition atComma :: "parser \<Rightarrow> string \<Rightarrow> bool result" where
  "atComma p context =
     (if tok p = COMMA then Inr (True, p)
      else if isIndent p then
        (case error p (pos p)
                (''missing '' @ apostrophe @ '','' @ apostrophe @ '' before newline in '' @ context) of
           Inl e \<Rightarrow> Inl e
         | Inr p1 \<Rightarrow> Inr (True, p1))
      else Inr (False, p))"

section \<open>Scoping support\<close>

text \<open>
  Dereferencing: a \<^verbatim>\<open>nil\<close> pointer has no target (the source panics there); so has an
  address the store does not hold, which no run produces.
\<close>

definition scopeAt :: "store \<Rightarrow> nat option \<Rightarrow> scope option" where
  "scopeAt h r =
     (case r of None \<Rightarrow> None
      | Some a \<Rightarrow> if a < length (scopes h) then Some (scopes h ! a) else None)"

definition getObj :: "store \<Rightarrow> ident \<Rightarrow> objptr" where
  "getObj h i = (if ObjCell i < length (cells h) then cells h ! ObjCell i else ObjNil)"

definition setObj :: "ident \<Rightarrow> objptr \<Rightarrow> store \<Rightarrow> store" where
  "setObj i obj h = h\<lparr>cells := (cells h)[ObjCell i := obj]\<rparr>"

text \<open>\<^verbatim>\<open>&ast.Ident{NamePos: pos, Name: name}\<close>: a new node, its \<^verbatim>\<open>Obj\<close> \<^verbatim>\<open>nil\<close>.\<close>

definition newIdent :: "Pos \<Rightarrow> string \<Rightarrow> parser \<Rightarrow> ident \<times> parser" where
  "newIdent ps name p =
     (\<lparr>NamePos = ps, Name = name, ObjCell = length (cells (heap p))\<rparr>,
      p\<lparr>heap := (heap p)\<lparr>cells := cells (heap p) @ [ObjNil]\<rparr>\<rparr>)"

definition NewScope :: "nat option \<Rightarrow> store \<Rightarrow> nat \<times> store" where
  "NewScope outer h =
     (length (scopes h), h\<lparr>scopes := scopes h @ [\<lparr>Outer = outer, Objects = Map.empty\<rparr>]\<rparr>)"

definition openScope :: "parser \<Rightarrow> parser" where
  "openScope p =
     (case NewScope (topScope p) (heap p) of (a, h) \<Rightarrow> p\<lparr>topScope := Some a, heap := h\<rparr>)"

definition closeScope :: "parser \<Rightarrow> abort + parser" where
  "closeScope p =
     (case scopeAt (heap p) (topScope p) of
        None \<Rightarrow> Inl RuntimePanic
      | Some s \<Rightarrow> Inr (p\<lparr>topScope := Outer s\<rparr>))"

definition openLabelScope :: "parser \<Rightarrow> parser" where
  "openLabelScope p =
     (case NewScope (labelScope p) (heap p) of
        (a, h) \<Rightarrow> p\<lparr>labelScope := Some a, targetStack := targetStack p @ [[]], heap := h\<rparr>)"

text \<open>The loop of \<^verbatim>\<open>closeLabelScope\<close> over the targets of the innermost label scope.\<close>

fun resolveLabels :: "nat option \<Rightarrow> ident list \<Rightarrow> parser \<Rightarrow> abort + parser" where
  "resolveLabels sc [] p = Inr p"
| "resolveLabels sc (ident # rest) p =
     (case scopeAt (heap p) sc of
        None \<Rightarrow> Inl RuntimePanic
      | Some s \<Rightarrow>
          (let obj = Lookup s (Name ident);
               p1 = p\<lparr>heap := setObj ident obj (heap p)\<rparr>
           in if obj = ObjNil \<and> DeclarationErrors \<in> mode p1 then
                (case error p1 (NamePos ident) (''label '' @ Name ident @ '' undefined'') of
                   Inl e \<Rightarrow> Inl e
                 | Inr p2 \<Rightarrow> resolveLabels sc rest p2)
              else resolveLabels sc rest p1))"

definition closeLabelScope :: "parser \<Rightarrow> abort + parser" where
  "closeLabelScope p =
     (if targetStack p = [] then Inl RuntimePanic
      else
        (case resolveLabels (labelScope p) (last (targetStack p)) p of
           Inl e \<Rightarrow> Inl e
         | Inr p1 \<Rightarrow>
             (case scopeAt (heap p1) (labelScope p1) of
                None \<Rightarrow> Inl RuntimePanic
              | Some s \<Rightarrow>
                  Inr (p1\<lparr>targetStack := butlast (targetStack p1), labelScope := Outer s\<rparr>))))"

text \<open>
  \<^verbatim>\<open>alt.Pos()\<close> for a pointer that is not \<^verbatim>\<open>nil\<close>. The sentinel \<^verbatim>\<open>unresolved\<close> is
  \<^verbatim>\<open>new(ast.Object)\<close>, whose \<^verbatim>\<open>Decl\<close> is \<^verbatim>\<open>nil\<close>.
\<close>

definition PosOf :: "store \<Rightarrow> objptr \<Rightarrow> abort + Pos" where
  "PosOf h obj =
     (case obj of
        ObjNil \<Rightarrow> Inl RuntimePanic
      | ObjUnresolved \<Rightarrow> Inr NoPos
      | ObjAt a \<Rightarrow> if a < length (objects h) then ObjectPos (objects h ! a) else Inl RuntimePanic)"

text \<open>
  \<^verbatim>\<open>parser.declare\<close>: the body of its loop (\<open>declareIdent\<close>), then the loop over
  \<^verbatim>\<open>idents\<close> (\<open>declareIdents\<close>).
\<close>

definition declareIdent ::
  "declNode \<Rightarrow> objData \<Rightarrow> nat option \<Rightarrow> objKind \<Rightarrow> ident \<Rightarrow> parser \<Rightarrow> abort + parser" where
  "declareIdent decl data sc kind ident p =
     (case assert (getObj (heap p) ident = ObjNil) ''identifier already declared or resolved'' of
        Inl e \<Rightarrow> Inl e
      | Inr u \<Rightarrow>
          (let obj = (NewObj kind (Name ident))\<lparr>ObjDecl := decl, ObjData := data\<rparr>;
               a = length (objects (heap p));
               h1 = setObj ident (ObjAt a) ((heap p)\<lparr>objects := objects (heap p) @ [obj]\<rparr>)
           in if Name ident \<noteq> ''_'' then
                (case sc of
                   None \<Rightarrow> Inl RuntimePanic
                 | Some r \<Rightarrow>
                     (case scopeAt h1 sc of
                        None \<Rightarrow> Inl RuntimePanic
                      | Some s \<Rightarrow>
                          (let alt = fst (Insert s (Name ident) (ObjAt a));
                               h2 = h1\<lparr>scopes := (scopes h1)[r := snd (Insert s (Name ident) (ObjAt a))]\<rparr>;
                               p2 = p\<lparr>heap := h2\<rparr>
                           in if alt \<noteq> ObjNil \<and> DeclarationErrors \<in> mode p then
                                (case PosOf h2 alt of
                                   Inl e \<Rightarrow> Inl e
                                 | Inr ps \<Rightarrow>
                                     (let prevDecl =
                                            (if IsValid ps then
                                               newline @ tab @ ''previous declaration at ''
                                                 @ PositionString (tfile p) (Position (tfile p) ps)
                                             else [])
                                      in error p2 (NamePos ident)
                                           (Name ident @ '' redeclared in this block'' @ prevDecl)))
                              else Inr p2)))
              else Inr (p\<lparr>heap := h1\<rparr>)))"

fun declareIdents ::
  "declNode \<Rightarrow> objData \<Rightarrow> nat option \<Rightarrow> objKind \<Rightarrow> ident list \<Rightarrow> parser \<Rightarrow> abort + parser" where
  "declareIdents decl data sc kind [] p = Inr p"
| "declareIdents decl data sc kind (ident # idents) p =
     (case declareIdent decl data sc kind ident p of
        Inl e \<Rightarrow> Inl e
      | Inr p1 \<Rightarrow> declareIdents decl data sc kind idents p1)"

text \<open>
  The walk of \<^verbatim>\<open>tryResolve\<close> from \<^verbatim>\<open>topScope\<close> outward. The first argument bounds the
  number of scopes visited; \<^verbatim>\<open>tryResolve\<close> passes the number of scopes of the store,
  and a walk that visits more scopes than there are is in a cycle of scopes none of which
  has the name, where the source loops for ever.
\<close>

fun lookupOutward :: "nat \<Rightarrow> store \<Rightarrow> nat option \<Rightarrow> string \<Rightarrow> abort + objptr" where
  "lookupOutward n h None name = Inr ObjNil"
| "lookupOutward 0 h (Some a) name = Inl Diverge"
| "lookupOutward (Suc n) h (Some a) name =
     (case scopeAt h (Some a) of
        None \<Rightarrow> Inl RuntimePanic
      | Some s \<Rightarrow>
          (let obj = Lookup s name
           in if obj \<noteq> ObjNil then Inr obj else lookupOutward n h (Outer s) name))"

definition tryResolve :: "expr \<Rightarrow> bool \<Rightarrow> parser \<Rightarrow> abort + parser" where
  "tryResolve x collectUnresolved p =
     (case x of
        Ident ident \<Rightarrow>
          (case assert (getObj (heap p) ident = ObjNil)
                  (''identifier '' @ apostrophe @ Name ident @ apostrophe
                     @ '' already declared or resolved'') of
             Inl e \<Rightarrow> Inl e
           | Inr u \<Rightarrow>
               if Name ident = ''_'' then Inr p
               else
                 (case lookupOutward (length (scopes (heap p))) (heap p) (topScope p)
                         (Name ident) of
                    Inl e \<Rightarrow> Inl e
                  | Inr obj \<Rightarrow>
                      if obj \<noteq> ObjNil then Inr (p\<lparr>heap := setObj ident obj (heap p)\<rparr>)
                      else if collectUnresolved then
                        Inr (p\<lparr>heap := setObj ident ObjUnresolved (heap p),
                               unresolved := unresolved p @ [ident]\<rparr>)
                      else Inr p))
      | _ \<Rightarrow> Inr p)"

definition resolve :: "expr \<Rightarrow> parser \<Rightarrow> abort + parser" where
  "resolve x p = tryResolve x True p"

section \<open>Identifiers\<close>

definition parseIdent :: "parser \<Rightarrow> ident result" where
  "parseIdent p =
     (let ps = pos p in
      if tok p = IDENT then Inr (newIdent ps (lit p) (next_tok p))
      else
        (case expect p IDENT of
           Inl e \<Rightarrow> Inl e
         | Inr (u, p1) \<Rightarrow> Inr (newIdent ps ''_'' p1)))"

section \<open>Productions\<close>

text \<open>
  The parser is one recursive descent through some seventy productions. This development
  embeds the productions its theorems are about and takes the others as given: the
  record \<open>grammar\<close> holds the productions of types, expressions, statements and
  declarations that the embedded ones call. Each is a function of the parser state that
  panics or returns its result and the new state; every theorem below holds for all of
  them.
\<close>

datatype specParser = ParseImportSpec | ParseValueSpec | ParseTypeSpec

record grammar =
  parseArrayType :: "parser \<Rightarrow> expr result"
  parseStructType :: "parser \<Rightarrow> expr result"
  parsePointerType :: "parser \<Rightarrow> expr result"
  parseFuncType :: "parser \<Rightarrow> (funcType \<times> nat option) result"
  parseInterfaceType :: "parser \<Rightarrow> expr result"
  parseMapType :: "parser \<Rightarrow> expr result"
  parseChanType :: "parser \<Rightarrow> expr result"
  parseType :: "parser \<Rightarrow> expr result"
  parseParameterList :: "nat option \<Rightarrow> bool \<Rightarrow> parser \<Rightarrow> field list result"
  parseRhsList :: "parser \<Rightarrow> expr list result"
  parseRhsOrType :: "parser \<Rightarrow> expr result"
  parseSimpleStmt :: "int \<Rightarrow> parser \<Rightarrow> (stmt \<times> bool) result"
  parseStmtList :: "parser \<Rightarrow> stmt list result"
  parseGenDecl :: "token \<Rightarrow> specParser \<Rightarrow> parser \<Rightarrow> decl result"
  parseDecl :: "(parser \<Rightarrow> parser) \<Rightarrow> parser \<Rightarrow> decl result"

text \<open>The parsing modes of \<^verbatim>\<open>parseSimpleStmt\<close>.\<close>

definition basic :: int where
  "basic = 0"

definition labelOk :: int where
  "labelOk = 1"

definition rangeOk :: int where
  "rangeOk = 2"

subsection \<open>Types and signatures\<close>

definition parseTypeName :: "parser \<Rightarrow> expr result" where
  "parseTypeName p =
     (case parseIdent p of
        Inl e \<Rightarrow> Inl e
      | Inr (ident, p1) \<Rightarrow>
          if tok p1 = PERIOD then
            (case resolve (Ident ident) (next_tok p1) of
               Inl e \<Rightarrow> Inl e
             | Inr p2 \<Rightarrow>
                 (case parseIdent p2 of
                    Inl e \<Rightarrow> Inl e
                  | Inr (sel, p3) \<Rightarrow> Inr (SelectorExpr (Ident ident) sel, p3)))
          else Inr (Ident ident, p1))"

definition some_result :: "'a result \<Rightarrow> 'a option result" where
  "some_result r = (case r of Inl e \<Rightarrow> Inl e | Inr (x, p) \<Rightarrow> Inr (Some x, p))"

definition tryIdentOrType :: "grammar \<Rightarrow> parser \<Rightarrow> expr option result" where
  "tryIdentOrType G p =
     (if tok p = IDENT then some_result (parseTypeName p)
      else if tok p = LBRACK then some_result (parseArrayType G p)
      else if tok p = STRUCT then some_result (parseStructType G p)
      else if tok p = MUL then some_result (parsePointerType G p)
      else if tok p = FUNC then
        (case parseFuncType G p of
           Inl e \<Rightarrow> Inl e
         | Inr ((typ, sc), p1) \<Rightarrow> Inr (Some (FuncTypeExpr typ), p1))
      else if tok p = INTERFACE then some_result (parseInterfaceType G p)
      else if tok p = MAP then some_result (parseMapType G p)
      else if tok p = CHAN \<or> tok p = ARROW then some_result (parseChanType G p)
      else if tok p = LPAREN then
        (let lparen = pos p in
         case parseType G (next_tok p) of
           Inl e \<Rightarrow> Inl e
         | Inr (typ, p1) \<Rightarrow>
             (case expect p1 RPAREN of
                Inl e \<Rightarrow> Inl e
              | Inr (rparen, p2) \<Rightarrow> Inr (Some (ParenExpr lparen typ rparen), p2)))
      else Inr (None, p))"

definition tryType :: "grammar \<Rightarrow> parser \<Rightarrow> expr option result" where
  "tryType G p =
     (case tryIdentOrType G p of
        Inl e \<Rightarrow> Inl e
      | Inr (None, p1) \<Rightarrow> Inr (None, p1)
      | Inr (Some typ, p1) \<Rightarrow>
          (case resolve typ p1 of Inl e \<Rightarrow> Inl e | Inr p2 \<Rightarrow> Inr (Some typ, p2)))"

definition parseParameters :: "grammar \<Rightarrow> nat option \<Rightarrow> bool \<Rightarrow> parser \<Rightarrow> fieldList result" where
  "parseParameters G sc ellipsisOk p =
     (case expect p LPAREN of
        Inl e \<Rightarrow> Inl e
      | Inr (lparen, p1) \<Rightarrow>
          (case (if tok p1 \<noteq> RPAREN then parseParameterList G sc ellipsisOk p1
                 else Inr ([], p1)) of
             Inl e \<Rightarrow> Inl e
           | Inr (params, p2) \<Rightarrow>
               (case expect p2 RPAREN of
                  Inl e \<Rightarrow> Inl e
                | Inr (rparen, p3) \<Rightarrow> Inr (FieldList lparen params rparen, p3))))"

definition parseResult :: "grammar \<Rightarrow> nat option \<Rightarrow> parser \<Rightarrow> fieldList option result" where
  "parseResult G sc p =
     (if tok p = LPAREN then some_result (parseParameters G sc False p)
      else
        (case tryType G p of
           Inl e \<Rightarrow> Inl e
         | Inr (Some typ, p1) \<Rightarrow>
             Inr (Some (FieldList NoPos [Field None [] typ None None] NoPos), p1)
         | Inr (None, p1) \<Rightarrow> Inr (None, p1)))"

definition parseSignature ::
  "grammar \<Rightarrow> nat option \<Rightarrow> parser \<Rightarrow> (fieldList option \<times> fieldList option) result" where
  "parseSignature G sc p =
     (case parseParameters G sc True p of
        Inl e \<Rightarrow> Inl e
      | Inr (params, p1) \<Rightarrow>
          (case parseResult G sc p1 of
             Inl e \<Rightarrow> Inl e
           | Inr (results, p2) \<Rightarrow> Inr ((Some params, results), p2)))"

subsection \<open>Small statements and blocks\<close>

definition parseReturnStmt :: "grammar \<Rightarrow> parser \<Rightarrow> stmt result" where
  "parseReturnStmt G p =
     (let ps = pos p in
      case expect p RETURN of
        Inl e \<Rightarrow> Inl e
      | Inr (u, p1) \<Rightarrow>
          (case (if tok p1 \<noteq> SEMICOLON \<and> tok p1 \<noteq> DEDENT then parseRhsList G p1
                 else Inr ([], p1)) of
             Inl e \<Rightarrow> Inl e
           | Inr (x, p2) \<Rightarrow>
               (case expectSemi p2 of
                  Inl e \<Rightarrow> Inl e
                | Inr p3 \<Rightarrow> Inr (ReturnStmt ps x, p3))))"

definition parseBranchStmt :: "token \<Rightarrow> parser \<Rightarrow> stmt result" where
  "parseBranchStmt t p =
     (case expect p t of
        Inl e \<Rightarrow> Inl e
      | Inr (ps, p1) \<Rightarrow>
          (case (if t \<noteq> FALLTHROUGH \<and> tok p1 = IDENT then
                   (case parseIdent p1 of
                      Inl e \<Rightarrow> Inl e
                    | Inr (label, p2) \<Rightarrow>
                        if targetStack p2 = [] then Inl RuntimePanic
                        else Inr (Some label,
                                  p2\<lparr>targetStack :=
                                       butlast (targetStack p2)
                                         @ [last (targetStack p2) @ [label]]\<rparr>))
                 else Inr (None, p1)) of
             Inl e \<Rightarrow> Inl e
           | Inr (label, p3) \<Rightarrow>
               (case expectSemi p3 of
                  Inl e \<Rightarrow> Inl e
                | Inr p4 \<Rightarrow> Inr (BranchStmt ps t label, p4))))"

definition parseSmallStmt :: "grammar \<Rightarrow> parser \<Rightarrow> stmt result" where
  "parseSmallStmt G p =
     (if tok p \<in> {CONST_tok, TYPE_tok, VAR} then
        (case parseDecl G syncStmt p of
           Inl e \<Rightarrow> Inl e
         | Inr (d, p1) \<Rightarrow> Inr (DeclStmt d, p1))
      else if tok p \<in> {IDENT, INT_tok, FLOAT, IMAG, CHAR_tok, STRING, FUNC, LPAREN,
                        LBRACK, STRUCT,
                        ADD, SUB, MUL, AND, XOR, ARROW, NOT} then
        (case parseSimpleStmt G basic p of
           Inl e \<Rightarrow> Inl e
         | Inr ((s, isRange), p1) \<Rightarrow> Inr (s, p1))
      else if tok p = RETURN then parseReturnStmt G p
      else if tok p \<in> {BREAK, CONTINUE, GOTO, FALLTHROUGH} then parseBranchStmt (tok p) p
      else if tok p = SEMICOLON then Inr (EmptyStmt (pos p), p)
      else
        (let ps = pos p in
         case errorExpected p ps ''small statement'' of
           Inl e \<Rightarrow> Inl e
         | Inr p1 \<Rightarrow> (let p2 = syncStmt p1 in Inr (BadStmt ps (pos p2), p2))))"

definition parseBody :: "grammar \<Rightarrow> nat option \<Rightarrow> parser \<Rightarrow> blockStmt result" where
  "parseBody G sc p =
     (if tok p = COLON then
        (case expect p COLON of
           Inl e \<Rightarrow> Inl e
         | Inr (colon, p1) \<Rightarrow>
             (let p2 = p1\<lparr>topScope := sc\<rparr> in
              case (if tok p2 = SEMICOLON then
                      (case expectSemi p2 of Inl e \<Rightarrow> Inl e | Inr q \<Rightarrow> Inr ([], q))
                    else
                      (case parseSmallStmt G p2 of
                         Inl e \<Rightarrow> Inl e
                       | Inr (s, q) \<Rightarrow> Inr ([s], q))) of
                Inl e \<Rightarrow> Inl e
              | Inr (list, p3) \<Rightarrow>
                  (case closeScope p3 of
                     Inl e \<Rightarrow> Inl e
                   | Inr p4 \<Rightarrow> Inr (BlockStmt colon list (pos p4) True, p4))))
      else
        (case expectSemi p of
           Inl e \<Rightarrow> Inl e
         | Inr p1 \<Rightarrow>
             if tok p1 = INDENT then
               (case expect p1 INDENT of
                  Inl e \<Rightarrow> Inl e
                | Inr (indent, p2) \<Rightarrow>
                    (case parseStmtList G (openLabelScope (openScope p2)) of
                       Inl e \<Rightarrow> Inl e
                     | Inr (list, p3) \<Rightarrow>
                         (case closeLabelScope p3 of
                            Inl e \<Rightarrow> Inl e
                          | Inr p4 \<Rightarrow>
                              (case closeScope p4 of
                                 Inl e \<Rightarrow> Inl e
                               | Inr p5 \<Rightarrow>
                                   (case expect p5 DEDENT of
                                      Inl e \<Rightarrow> Inl e
                                    | Inr (dedent, p6) \<Rightarrow>
                                        Inr (BlockStmt indent list dedent False, p6))))))
             else if allowEmptyBlock p1 then Inr (BlockStmt (pos p1) [] (pos p1) False, p1)
             else
               (case errorExpected p1 (pos p1) ''block'' of
                  Inl e \<Rightarrow> Inl e
                | Inr p2 \<Rightarrow> Inr (BlockStmt (pos p2) [] (pos p2) False, p2))))"

definition parseBlockStmt :: "grammar \<Rightarrow> parser \<Rightarrow> blockStmt result" where
  "parseBlockStmt G p =
     (if tok p = COLON then
        (case expect p COLON of
           Inl e \<Rightarrow> Inl e
         | Inr (colon, p1) \<Rightarrow>
             (case parseSmallStmt G (openScope p1) of
                Inl e \<Rightarrow> Inl e
              | Inr (s, p2) \<Rightarrow>
                  (case closeScope p2 of
                     Inl e \<Rightarrow> Inl e
                   | Inr p3 \<Rightarrow>
                       (let ps = pos p3 in
                        case expectSemi p3 of
                          Inl e \<Rightarrow> Inl e
                        | Inr p4 \<Rightarrow> Inr (BlockStmt colon [s] ps True, p4)))))
      else
        (case expectSemi p of
           Inl e \<Rightarrow> Inl e
         | Inr p1 \<Rightarrow>
             if tok p1 = INDENT then
               (case expect p1 INDENT of
                  Inl e \<Rightarrow> Inl e
                | Inr (indent, p2) \<Rightarrow>
                    (case parseStmtList G (openScope p2) of
                       Inl e \<Rightarrow> Inl e
                     | Inr (list, p3) \<Rightarrow>
                         (case closeScope p3 of
                            Inl e \<Rightarrow> Inl e
                          | Inr p4 \<Rightarrow>
                              (case expect p4 DEDENT of
                                 Inl e \<Rightarrow> Inl e
                               | Inr (dedent, p5) \<Rightarrow>
                                   Inr (BlockStmt indent list dedent False, p5)))))
             else if allowEmptyBlock p1 then Inr (BlockStmt (pos p1) [] (pos p1) False, p1)
             else
               (case errorExpected p1 (pos p1) ''block'' of
                  Inl e \<Rightarrow> Inl e
                | Inr p2 \<Rightarrow> Inr (BlockStmt (pos p2) [] (pos p2) False, p2))))"

subsection \<open>Function declarations\<close>

definition parseReceiver :: "expr \<Rightarrow> nat option \<Rightarrow> parser \<Rightarrow> field result" where
  "parseReceiver typ sc p =
     (case newIdent NoPos ''self'' p of
        (ident, p1) \<Rightarrow>
          (let fld = Field None [ident] typ None None in
           case declareIdents (FieldNode fld) NoData sc Var [ident] p1 of
             Inl e \<Rightarrow> Inl e
           | Inr p2 \<Rightarrow>
               (case typ of
                  Ident t \<Rightarrow>
                    (case resolve (Ident t) p2 of Inl e \<Rightarrow> Inl e | Inr p3 \<Rightarrow> Inr (fld, p3))
                | _ \<Rightarrow> Inr (fld, p2))))"

text \<open>
  The part of \<^verbatim>\<open>parseFuncDecl\<close> that reads the receiver, if there is one, and the name:
  \<^verbatim>\<open>*T.ident\<close>, \<^verbatim>\<open>T.ident\<close> or \<^verbatim>\<open>ident\<close>. The result is \<^verbatim>\<open>recv\<close> and \<^verbatim>\<open>ident\<close>.
\<close>

definition parseFuncName :: "nat option \<Rightarrow> parser \<Rightarrow> (field option \<times> ident) result" where
  "parseFuncName sc p =
     (if tok p = MUL then
        (case expect p MUL of
           Inl e \<Rightarrow> Inl e
         | Inr (star, p1) \<Rightarrow>
             (case parseIdent p1 of
                Inl e \<Rightarrow> Inl e
              | Inr (typ, p2) \<Rightarrow>
                  (case parseReceiver (StarExpr star (Ident typ)) sc p2 of
                     Inl e \<Rightarrow> Inl e
                   | Inr (recv, p3) \<Rightarrow>
                       (case expect p3 PERIOD of
                          Inl e \<Rightarrow> Inl e
                        | Inr (u, p4) \<Rightarrow>
                            (case parseIdent p4 of
                               Inl e \<Rightarrow> Inl e
                             | Inr (ident, p5) \<Rightarrow> Inr ((Some recv, ident), p5))))))
      else
        (case parseIdent p of
           Inl e \<Rightarrow> Inl e
         | Inr (ident, p1) \<Rightarrow>
             if tok p1 = PERIOD then
               (case parseReceiver (Ident ident) sc p1 of
                  Inl e \<Rightarrow> Inl e
                | Inr (recv, p2) \<Rightarrow>
                    (case parseIdent (next_tok p2) of
                       Inl e \<Rightarrow> Inl e
                     | Inr (ident', p3) \<Rightarrow> Inr ((Some recv, ident'), p3)))
             else Inr ((None, ident), p1)))"

definition parseFuncDecl :: "grammar \<Rightarrow> parser \<Rightarrow> decl result" where
  "parseFuncDecl G p =
     (let doc = leadComment p in
      case expect p FUNC of
        Inl e \<Rightarrow> Inl e
      | Inr (ps, p1) \<Rightarrow>
          (case NewScope (topScope p1) (heap p1) of
             (a, h) \<Rightarrow>
               (let sc = Some a;
                    p2 = p1\<lparr>heap := h\<rparr>;
                    lparen = pos p2
                in case parseFuncName sc p2 of
                     Inl e \<Rightarrow> Inl e
                   | Inr ((recv, ident), p3) \<Rightarrow>
                       (let recvList =
                              (case recv of
                                 None \<Rightarrow> None
                               | Some r \<Rightarrow> Some (FieldList lparen [r] (pos p3)))
                        in case parseSignature G sc p3 of
                             Inl e \<Rightarrow> Inl e
                           | Inr ((params, results), p4) \<Rightarrow>
                               (case parseBody G sc p4 of
                                  Inl e \<Rightarrow> Inl e
                                | Inr (body, p5) \<Rightarrow>
                                    (let d = FuncDecl doc recvList ident
                                               (FuncType ps params results) (Some body)
                                     in if recv = None \<and> Name ident \<noteq> ''init'' then
                                          (case declareIdents (DeclNode d) NoData (pkgScope p5)
                                                  Fun [ident] p5 of
                                             Inl e \<Rightarrow> Inl e
                                           | Inr p6 \<Rightarrow> Inr (d, p6))
                                        else Inr (d, p5)))))))"

definition parseDecl_p :: "grammar \<Rightarrow> (parser \<Rightarrow> parser) \<Rightarrow> parser \<Rightarrow> decl result" where
  "parseDecl_p G sync p =
     (if tok p = CONST_tok \<or> tok p = VAR then parseGenDecl G (tok p) ParseValueSpec p
      else if tok p = TYPE_tok then parseGenDecl G (tok p) ParseTypeSpec p
      else if tok p = FUNC then parseFuncDecl G p
      else
        (let ps = pos p in
         case errorExpected p ps ''declaration'' of
           Inl e \<Rightarrow> Inl e
         | Inr p1 \<Rightarrow> (let p2 = sync p1 in Inr (BadDecl ps (pos p2), p2))))"

subsection \<open>Calls\<close>

text \<open>
  The loop of \<^verbatim>\<open>parseCallOrConversion\<close> over the arguments. It calls a production that
  is not embedded, so nothing bounds the number of its rounds: a loop that never ends has
  the value \<open>None\<close>.
\<close>

partial_function (option) parseArgs ::
  "grammar \<Rightarrow> expr list \<Rightarrow> Pos \<Rightarrow> parser \<Rightarrow> ((expr list \<times> Pos) result) option" where
  "parseArgs G list ellipsis p =
     (if tok p \<noteq> RPAREN \<and> tok p \<noteq> EOF \<and> \<not> IsValid ellipsis then
        (case parseRhsOrType G p of
           Inl e \<Rightarrow> Some (Inl e)
         | Inr (x, p1) \<Rightarrow>
             (let ellipsis1 = (if tok p1 = ELLIPSIS then pos p1 else ellipsis);
                  p2 = (if tok p1 = ELLIPSIS then next_tok p1 else p1)
              in case atComma p2 ''argument list'' of
                   Inl e \<Rightarrow> Some (Inl e)
                 | Inr (comma, p3) \<Rightarrow>
                     if \<not> comma then Some (Inr ((list @ [x], ellipsis1), p3))
                     else parseArgs G (list @ [x]) ellipsis1 (next_tok p3)))
      else Some (Inr ((list, ellipsis), p)))"

text \<open>The part of \<^verbatim>\<open>parseCallOrConversion\<close> after the closing parenthesis.\<close>

definition parseDo :: "grammar \<Rightarrow> expr list \<Rightarrow> parser \<Rightarrow> expr list result" where
  "parseDo G list p =
     (if tok p = DO then
        (case expect p DO of
           Inl e \<Rightarrow> Inl e
         | Inr (ps, p1) \<Rightarrow>
             (case NewScope (topScope p1) (heap p1) of
                (a, h) \<Rightarrow>
                  (case parseSignature G (Some a) (p1\<lparr>heap := h\<rparr>) of
                     Inl e \<Rightarrow> Inl e
                   | Inr ((params, results), p2) \<Rightarrow>
                       (case parseBody G (Some a) (p2\<lparr>exprLev := exprLev p2 + 1\<rparr>) of
                          Inl e \<Rightarrow> Inl e
                        | Inr (body, p3) \<Rightarrow>
                            Inr (list @ [FuncLit (FuncType ps params results) body],
                                 p3\<lparr>exprLev := exprLev p3 - 1\<rparr>)))))
      else Inr (list, p))"

definition parseCallOrConversion :: "grammar \<Rightarrow> expr \<Rightarrow> parser \<Rightarrow> (expr result) option" where
  "parseCallOrConversion G fn p =
     (case expect p LPAREN of
        Inl e \<Rightarrow> Some (Inl e)
      | Inr (lparen, p1) \<Rightarrow>
          (case parseArgs G [] NoPos (p1\<lparr>exprLev := exprLev p1 + 1\<rparr>) of
             None \<Rightarrow> None
           | Some (Inl e) \<Rightarrow> Some (Inl e)
           | Some (Inr ((list, ellipsis), p2)) \<Rightarrow>
               (case expectClosing (p2\<lparr>exprLev := exprLev p2 - 1\<rparr>) RPAREN ''argument list'' of
                  Inl e \<Rightarrow> Some (Inl e)
                | Inr (rparen, p3) \<Rightarrow>
                    (case parseDo G list p3 of
                       Inl e \<Rightarrow> Some (Inl e)
                     | Inr (list', p4) \<Rightarrow>
                         Some (Inr (CallExpr fn lparen list' ellipsis rparen, p4))))))"

subsection \<open>Source files\<close>

text \<open>The two loops of \<^verbatim>\<open>parseFile\<close> over the declarations.\<close>

partial_function (option) parseImports ::
  "grammar \<Rightarrow> decl list \<Rightarrow> parser \<Rightarrow> (decl list result) option" where
  "parseImports G decls p =
     (if tok p = IMPORT then
        (case parseGenDecl G IMPORT ParseImportSpec p of
           Inl e \<Rightarrow> Some (Inl e)
         | Inr (d, p1) \<Rightarrow> parseImports G (decls @ [d]) p1)
      else Some (Inr (decls, p)))"

partial_function (option) parseDecls ::
  "grammar \<Rightarrow> decl list \<Rightarrow> parser \<Rightarrow> (decl list result) option" where
  "parseDecls G decls p =
     (if tok p \<noteq> EOF then
        (case parseDecl_p G syncDecl p of
           Inl e \<Rightarrow> Some (Inl e)
         | Inr (d, p1) \<Rightarrow> parseDecls G (decls @ [d]) p1)
      else Some (Inr (decls, p)))"

text \<open>
  The last loop of \<^verbatim>\<open>parseFile\<close>, which resolves the collected identifiers against the
  package scope and compacts \<^verbatim>\<open>self.unresolved\<close> in place: \<open>k\<close> is the index of the
  range loop, \<open>i\<close> the number of identifiers kept so far, \<open>n\<close> the length of the slice
  when the loop starts.
\<close>

function resolveGlobals :: "nat \<Rightarrow> nat \<Rightarrow> nat \<Rightarrow> parser \<Rightarrow> nat result" where
  "resolveGlobals k i n p =
     (if k < n then
        (let ident = unresolved p ! k in
         case assert (getObj (heap p) ident = ObjUnresolved) ''object already resolved'' of
           Inl e \<Rightarrow> Inl e
         | Inr u \<Rightarrow>
             (case scopeAt (heap p) (pkgScope p) of
                None \<Rightarrow> Inl RuntimePanic
              | Some s \<Rightarrow>
                  (let obj = Lookup s (Name ident);
                       p1 = p\<lparr>heap := setObj ident obj (heap p)\<rparr>
                   in if obj = ObjNil then
                        resolveGlobals (k + 1) (i + 1) n
                          (p1\<lparr>unresolved := (unresolved p1)[i := ident]\<rparr>)
                      else resolveGlobals (k + 1) i n p1)))
      else Inr (i, p))"
  by pat_completeness auto
termination
  by (relation "measure (\<lambda>(k, i, n, p). n - k)") auto

declare resolveGlobals.simps [simp del]

record astFile =
  FileDoc :: "commentGroup option"
  Package :: Pos
  PkgName :: ident
  Decls :: "decl list"
  FileScope :: "nat option"
  Imports :: "spec list"
  Unresolved :: "ident list"
  Comments :: "commentGroup list"

text \<open>
  \<^verbatim>\<open>parseFile\<close> in three parts: the package clause (in \<open>parseFile\<close> itself), the
  declarations (\<open>fileDecls\<close>), and what follows the declarations (\<open>fileEnd\<close>).
\<close>

definition fileDecls :: "grammar \<Rightarrow> parser \<Rightarrow> (decl list result) option" where
  "fileDecls G p =
     (if PackageClauseOnly \<notin> mode p then
        (case parseImports G [] p of
           None \<Rightarrow> None
         | Some (Inl e) \<Rightarrow> Some (Inl e)
         | Some (Inr (ds, q)) \<Rightarrow>
             if ImportsOnly \<notin> mode q then parseDecls G ds q else Some (Inr (ds, q)))
      else Some (Inr ([], p)))"

definition fileEnd ::
  "commentGroup option \<Rightarrow> Pos \<Rightarrow> ident \<Rightarrow> decl list \<Rightarrow> parser \<Rightarrow> astFile option result" where
  "fileEnd doc ps ident decls p =
     (case closeScope p of
        Inl e \<Rightarrow> Inl e
      | Inr p1 \<Rightarrow>
          (case assert (topScope p1 = None) ''unbalanced scopes'' of
             Inl e \<Rightarrow> Inl e
           | Inr u \<Rightarrow>
               (case assert (labelScope p1 = None) ''unbalanced label scopes'' of
                  Inl e \<Rightarrow> Inl e
                | Inr u' \<Rightarrow>
                    (case resolveGlobals 0 0 (length (unresolved p1)) p1 of
                       Inl e \<Rightarrow> Inl e
                     | Inr (i, p2) \<Rightarrow>
                         Inr (Some \<lparr>FileDoc = doc, Package = ps, PkgName = ident,
                                    Decls = decls, FileScope = pkgScope p2,
                                    Imports = importSpecs p2,
                                    Unresolved = take i (unresolved p2),
                                    Comments = comments p2\<rparr>,
                              p2)))))"

definition parseFile :: "grammar \<Rightarrow> parser \<Rightarrow> (astFile option result) option" where
  "parseFile G p =
     (if errors p \<noteq> [] then Some (Inr (None, p))
      else
        (let doc = leadComment p in
         case expect p PACKAGE of
           Inl e \<Rightarrow> Some (Inl e)
         | Inr (ps, p1) \<Rightarrow>
             (case parseIdent p1 of
                Inl e \<Rightarrow> Some (Inl e)
              | Inr (ident, p2) \<Rightarrow>
                  (case (if Name ident = ''_'' then error p2 (pos p2) ''invalid package name _''
                         else Inr p2) of
                     Inl e \<Rightarrow> Some (Inl e)
                   | Inr p3 \<Rightarrow>
                       (case expectSemi p3 of
                          Inl e \<Rightarrow> Some (Inl e)
                        | Inr p4 \<Rightarrow>
                            if errors p4 \<noteq> [] then Some (Inr (None, p4))
                            else
                              (let p5 = openScope p4;
                                   p6 = p5\<lparr>pkgScope := topScope p5\<rparr>
                               in case fileDecls G p6 of
                                    None \<Rightarrow> None
                                  | Some (Inl e) \<Rightarrow> Some (Inl e)
                                  | Some (Inr (decls, p7)) \<Rightarrow>
                                      Some (fileEnd doc ps ident decls p7)))))))"

text \<open>
  \<^verbatim>\<open>parser.init\<close>: the file and the scanner's results are given, the mode is stored, every
  other field has its zero value, and \<^verbatim>\<open>next\<close> reads the first token.
\<close>

definition init :: "tokenFile \<Rightarrow> scanned list \<Rightarrow> Pos \<Rightarrow> modeFlag set \<Rightarrow> parser" where
  "init f src srcend m =
     next_tok
       \<lparr>tfile = f, errors = [], input = src, srcEnd = srcend, mode = m, comments = [],
        leadComment = None, lineComment = None, pos = NoPos, tok = ILLEGAL, ptok = ILLEGAL,
        lit = [], syncPos = NoPos, syncCnt = 0, exprLev = 0, inRhs = False,
        allowEmptyBlock = False, pkgScope = None, topScope = None, unresolved = [],
        importSpecs = [], labelScope = None, targetStack = [],
        heap = \<lparr>cells = [], objects = [], scopes = []\<rparr>\<rparr>"

section \<open>The printer\<close>

text \<open>
  What \<^verbatim>\<open>printer.print\<close> is given: positions, tokens and white space. The printer's state,
  \<^verbatim>\<open>print\<close> itself and the methods the call case of \<^verbatim>\<open>expr1\<close> hands over to are taken as
  given, as are \<^verbatim>\<open>Expr.Pos\<close> and \<^verbatim>\<open>token.HighestPrec\<close>.
\<close>

datatype whiteSpace = ignore | blank | vtab | newline_ws | formfeed | indent | unindent

datatype printArg = APos Pos | ATok token | AWs whiteSpace

definition commaTerm :: nat where
  "commaTerm = 1"

record 's printerOps =
  print :: "printArg list \<Rightarrow> 's \<Rightarrow> 's"
  expr1 :: "expr \<Rightarrow> int \<Rightarrow> int \<Rightarrow> 's \<Rightarrow> 's"
  exprList :: "Pos \<Rightarrow> expr list \<Rightarrow> int \<Rightarrow> nat \<Rightarrow> Pos \<Rightarrow> 's \<Rightarrow> 's"
  signature :: "fieldList option \<Rightarrow> fieldList option \<Rightarrow> 's \<Rightarrow> 's"
  adjBlock :: "blockStmt \<Rightarrow> 's \<Rightarrow> 's"
  lineFor :: "Pos \<Rightarrow> 's \<Rightarrow> int"
  ExprPos :: "expr \<Rightarrow> Pos"
  HighestPrec :: int

text \<open>\<^verbatim>\<open>printer.expr1\<close> on a call expression; other expressions are left to \<open>expr1\<close>.\<close>

definition expr1_CallExpr :: "'s printerOps \<Rightarrow> expr \<Rightarrow> int \<Rightarrow> int \<Rightarrow> 's \<Rightarrow> 's" where
  "expr1_CallExpr P x prec1 depth0 s =
     (case x of
        CallExpr fn lparen args ellipsis rparen \<Rightarrow>
          (let s0 = print P [APos (ExprPos P x)] s;
               depth = (if length args > 1 then depth0 + 1 else depth0);
               s1 = (case fn of
                       FuncTypeExpr t \<Rightarrow>
                         print P [ATok RPAREN]
                           (expr1 P fn (HighestPrec P) depth (print P [ATok LPAREN] s0))
                     | _ \<Rightarrow> expr1 P fn (HighestPrec P) depth s0);
               s2 = print P [APos lparen, ATok LPAREN] s1
           in if IsValid ellipsis then
                (let s3 = exprList P lparen args depth 0 ellipsis s2;
                     s4 = print P [APos ellipsis, ATok ELLIPSIS] s3;
                     s5 = (if IsValid rparen \<and> lineFor P ellipsis s4 < lineFor P rparen s4
                           then print P [ATok COMMA, AWs formfeed] s4 else s4)
                 in print P [APos rparen, ATok RPAREN] s5)
              else if length args > 0 then
                (case last args of
                   FuncLit ty body \<Rightarrow>
                     (let s3 = exprList P lparen (butlast args) depth commaTerm rparen s2;
                          s4 = print P [APos rparen, ATok RPAREN] s3;
                          s5 = print P [AWs blank, ATok DO] s4;
                          s6 = signature P (Params ty) (Results ty) s5
                      in adjBlock P body s6)
                 | _ \<Rightarrow>
                     print P [APos rparen, ATok RPAREN]
                       (exprList P lparen args depth commaTerm rparen s2))
              else print P [APos rparen, ATok RPAREN] s2)
      | _ \<Rightarrow> expr1 P x prec1 depth0 s)"

subsection \<open>The type column of grouped declarations\<close>

text \<open>\<^verbatim>\<open>populate\<close>, the closure of \<^verbatim>\<open>keepTypeColumn\<close>.\<close>

definition populate :: "bool list \<Rightarrow> nat \<Rightarrow> nat \<Rightarrow> bool \<Rightarrow> bool list" where
  "populate m i j keepType = (if keepType then fold (\<lambda>k m'. m'[k := True]) [i..<j] m else m)"

text \<open>
  The loop of \<^verbatim>\<open>keepTypeColumn\<close>; its state is \<^verbatim>\<open>m\<close>, \<^verbatim>\<open>i0\<close> and \<^verbatim>\<open>keepType\<close>. The type
  assertion \<^verbatim>\<open>s.(*ast.ValueSpec)\<close> panics on another kind of spec.
\<close>

fun keepTypeLoop ::
  "spec list \<Rightarrow> nat \<Rightarrow> bool list \<times> int \<times> bool \<Rightarrow> abort + bool list \<times> int \<times> bool" where
  "keepTypeLoop [] i st = Inr st"
| "keepTypeLoop (ValueSpec doc names typ vals cmt # specs) i (m, i0, keepType) =
     (let st1 =
            (if vals \<noteq> None then
               (if i0 < 0 then (m, int i, False) else (m, i0, keepType))
             else
               (if i0 \<ge> 0 then (populate m (nat i0) i keepType, - 1, keepType)
                else (m, i0, keepType)));
          st2 = (if typ \<noteq> None then (fst st1, fst (snd st1), True) else st1)
      in keepTypeLoop specs (i + 1) st2)"
| "keepTypeLoop (s # specs) i st = Inl RuntimePanic"

definition keepTypeColumn :: "spec list \<Rightarrow> abort + bool list" where
  "keepTypeColumn specs =
     (case keepTypeLoop specs 0 (replicate (length specs) False, - 1, False) of
        Inl e \<Rightarrow> Inl e
      | Inr (m, i0, keepType) \<Rightarrow>
          Inr (if i0 \<ge> 0 then populate m (nat i0) (length specs) keepType else m))"

section \<open>Serializing file sets\<close>

record lineInfo =
  InfoOffset :: int
  InfoFilename :: string
  InfoLine :: int

text \<open>
  \<^verbatim>\<open>token.File\<close> and \<^verbatim>\<open>token.FileSet\<close>, with the fields \<^verbatim>\<open>Read\<close> and \<^verbatim>\<open>Write\<close> touch. A
  file points back to the file set it belongs to, which is given by its address. The
  mutex of the file set is not modelled.
\<close>

record tFile =
  f_set :: nat
  f_name :: string
  f_base :: int
  f_size :: int
  f_lines :: "int list"
  f_infos :: "lineInfo list"

record fileSet =
  fs_base :: int
  fs_files :: "tFile list"
  fs_last :: "tFile option"

record serializedFile =
  sName :: string
  sBase :: int
  sSize :: int
  sLines :: "int list"
  sInfos :: "lineInfo list"

record serializedFileSet =
  ssBase :: int
  ssFiles :: "serializedFile list"

text \<open>
  \<^verbatim>\<open>encode\<close> and \<^verbatim>\<open>decode\<close> are the caller's: \<^verbatim>\<open>encode\<close> writes a value to a medium
  \<open>'w\<close> and \<^verbatim>\<open>decode\<close> reads one from it; each may fail with an error \<open>'e\<close>.
\<close>

definition Write ::
  "fileSet \<Rightarrow> (serializedFileSet \<Rightarrow> 'w \<Rightarrow> 'e option \<times> 'w) \<Rightarrow> 'w \<Rightarrow> 'e option \<times> 'w" where
  "Write s encode w =
     encode \<lparr>ssBase = fs_base s,
             ssFiles = map (\<lambda>f. \<lparr>sName = f_name f, sBase = f_base f, sSize = f_size f,
                                  sLines = f_lines f, sInfos = f_infos f\<rparr>) (fs_files s)\<rparr> w"

definition Read ::
  "nat \<Rightarrow> fileSet \<Rightarrow> ('w \<Rightarrow> 'e option \<times> serializedFileSet \<times> 'w) \<Rightarrow> 'w
     \<Rightarrow> 'e option \<times> fileSet \<times> 'w" where
  "Read self s decode w =
     (case decode w of
        (Some err, ss, w') \<Rightarrow> (Some err, s, w')
      | (None, ss, w') \<Rightarrow>
          (None,
           s\<lparr>fs_base := ssBase ss,
             fs_files := map (\<lambda>f. \<lparr>f_set = self, f_name = sName f, f_base = sBase f,
                                    f_size = sSize f, f_lines = sLines f, f_infos = sInfos f\<rparr>)
                           (ssFiles ss),
             fs_last := None\<rparr>,
           w'))"

section \<open>Runs of specs with values\<close>

text \<open>
  The words of claim C9: the specs that have initialization values, those that carry a type, a
  maximal contiguous run \<open>[lo, hi)\<close> of specs with values, and the specs that lie in
  such a run one of whose specs carries a type.
\<close>

definition isValueSpec :: "spec \<Rightarrow> bool" where
  "isValueSpec s = (case s of ValueSpec doc names typ vals cmt \<Rightarrow> True | _ \<Rightarrow> False)"

definition hasValues :: "spec \<Rightarrow> bool" where
  "hasValues s = (case s of ValueSpec doc names typ vals cmt \<Rightarrow> vals \<noteq> None | _ \<Rightarrow> False)"

definition hasType :: "spec \<Rightarrow> bool" where
  "hasType s = (case s of ValueSpec doc names typ vals cmt \<Rightarrow> typ \<noteq> None | _ \<Rightarrow> False)"

definition maximalRun :: "spec list \<Rightarrow> nat \<Rightarrow> nat \<Rightarrow> bool" where
  "maximalRun specs lo hi =
     (lo < hi \<and> hi \<le> length specs
      \<and> (\<forall>k \<in> {lo..<hi}. hasValues (specs ! k))
      \<and> (lo = 0 \<or> \<not> hasValues (specs ! (lo - 1)))
      \<and> (hi = length specs \<or> \<not> hasValues (specs ! hi)))"

definition inTypedRun :: "spec list \<Rightarrow> nat \<Rightarrow> bool" where
  "inTypedRun specs i =
     (\<exists>lo \<in> {..i}. \<exists>hi \<in> {i<..length specs}.
        maximalRun specs lo hi \<and> (\<exists>j \<in> {lo..<hi}. hasType (specs ! j)))"

text \<open>
  The invariant of the loop after the first \<open>i\<close> specs: the entries of the runs that
  are closed are final, those from the start of an open run on are still false, and
  \<^verbatim>\<open>keepType\<close> says whether the open run has met a type.
\<close>

definition ktInv :: "spec list \<Rightarrow> nat \<Rightarrow> bool list \<times> int \<times> bool \<Rightarrow> bool" where
  "ktInv specs i st =
     (case st of (m, i0, kt) \<Rightarrow>
        length m = length specs \<and> i \<le> length specs
        \<and> (\<forall>k. i \<le> k \<and> k < length specs \<longrightarrow> \<not> m ! k)
        \<and> (if i0 < 0 then
              (i = 0 \<or> \<not> hasValues (specs ! (i - 1)))
              \<and> (\<forall>k < i. m ! k = inTypedRun specs k)
            else
              nat i0 < i
              \<and> (\<forall>k \<in> {nat i0..<i}. hasValues (specs ! k))
              \<and> (nat i0 = 0 \<or> \<not> hasValues (specs ! (nat i0 - 1)))
              \<and> kt = (\<exists>j \<in> {nat i0..<i}. hasType (specs ! j))
              \<and> (\<forall>k < nat i0. m ! k = inTypedRun specs k)
              \<and> (\<forall>k \<in> {nat i0..<i}. \<not> m ! k)))"

section \<open>Concrete inputs\<close>

text \<open>
  An instance of the functions of package \<^verbatim>\<open>token\<close> that the parser is given, to run the
  definitions on concrete inputs: a file \<^verbatim>\<open>a.igo\<close> of base 1 whose lines are 100 bytes
  long, positions rendered as \<^verbatim>\<open>file:line:column\<close>, and tokens rendered as the host
  language's \<^verbatim>\<open>Token.String\<close> renders them.
\<close>

fun decimal :: "nat \<Rightarrow> string" where
  "decimal n =
     (if n < 10 then [''0123456789'' ! n]
      else decimal (n div 10) @ [''0123456789'' ! (n mod 10)])"

definition demoTokenString :: "token \<Rightarrow> string" where
  "demoTokenString t =
     (case t of
        EOF \<Rightarrow> ''EOF'' | COMMENT \<Rightarrow> ''COMMENT'' | IDENT \<Rightarrow> ''IDENT'' | INT_tok \<Rightarrow> ''INT''
      | FLOAT \<Rightarrow> ''FLOAT'' | IMAG \<Rightarrow> ''IMAG'' | CHAR_tok \<Rightarrow> ''CHAR'' | STRING \<Rightarrow> ''STRING''
      | ADD \<Rightarrow> ''+'' | SUB \<Rightarrow> ''-'' | MUL \<Rightarrow> ''*'' | ASSIGN \<Rightarrow> ''='' | DEFINE \<Rightarrow> '':=''
      | LPAREN \<Rightarrow> ''('' | RPAREN \<Rightarrow> '')'' | LBRACK \<Rightarrow> ''['' | RBRACK \<Rightarrow> '']''
      | LBRACE \<Rightarrow> ''{'' | RBRACE \<Rightarrow> ''}'' | COMMA \<Rightarrow> '','' | PERIOD \<Rightarrow> ''.''
      | SEMICOLON \<Rightarrow> '';'' | COLON \<Rightarrow> '':'' | ELLIPSIS \<Rightarrow> ''...''
      | FUNC \<Rightarrow> ''func'' | RETURN \<Rightarrow> ''return'' | PACKAGE \<Rightarrow> ''package'' | VAR \<Rightarrow> ''var''
      | CONST_tok \<Rightarrow> ''const'' | TYPE_tok \<Rightarrow> ''type'' | IMPORT \<Rightarrow> ''import'' | IF \<Rightarrow> ''if''
      | BREAK \<Rightarrow> ''break'' | CONTINUE \<Rightarrow> ''continue'' | GOTO \<Rightarrow> ''goto''
      | INDENT \<Rightarrow> ''INDENT'' | DEDENT \<Rightarrow> ''DEDENT'' | DO \<Rightarrow> ''do''
      | _ \<Rightarrow> ''ILLEGAL'')"

definition demoFile :: tokenFile where
  "demoFile =
     \<lparr>Position = (\<lambda>p. \<lparr>Filename = ''a.igo'', Offset = p - 1, Line = (p - 1) div 100 + 1,
                          Column = (p - 1) mod 100 + 1\<rparr>),
      LineOf = (\<lambda>p. (p - 1) div 100 + 1),
      PositionString = (\<lambda>ps. Filename ps @ '':'' @ decimal (nat (Line ps)) @ '':''
                                @ decimal (nat (Column ps))),
      TokenString = demoTokenString\<rparr>"

text \<open>One result of the scanner without scan errors.\<close>

definition scan :: "Pos \<Rightarrow> token \<Rightarrow> string \<Rightarrow> scanned" where
  "scan ps t l = \<lparr>ScanPos = ps, ScanTok = t, ScanLit = l, ScanErrs = []\<rparr>"

text \<open>
  The grammar in which every production that is not embedded panics. It serves to run the
  embedded productions on inputs that never reach one of the others.
\<close>

definition notEmbedded :: abort where
  "notEmbedded = PanicString ''production not embedded''"

definition noGrammar :: grammar where
  "noGrammar =
     \<lparr>parseArrayType = (\<lambda>p. Inl notEmbedded),
      parseStructType = (\<lambda>p. Inl notEmbedded),
      parsePointerType = (\<lambda>p. Inl notEmbedded),
      parseFuncType = (\<lambda>p. Inl notEmbedded),
      parseInterfaceType = (\<lambda>p. Inl notEmbedded),
      parseMapType = (\<lambda>p. Inl notEmbedded),
      parseChanType = (\<lambda>p. Inl notEmbedded),
      parseType = (\<lambda>p. Inl notEmbedded),
      parseParameterList = (\<lambda>sc ellipsisOk p. Inl notEmbedded),
      parseRhsList = (\<lambda>p. Inl notEmbedded),
      parseRhsOrType = (\<lambda>p. Inl notEmbedded),
      parseSimpleStmt = (\<lambda>m p. Inl notEmbedded),
      parseStmtList = (\<lambda>p. Inl notEmbedded),
      parseGenDecl = (\<lambda>keyword f p. Inl notEmbedded),
      parseDecl = (\<lambda>sync p. Inl notEmbedded)\<rparr>"

text \<open>The definitions that a run on a concrete input unfolds.\<close>

lemmas run_defs =
  init_def scan_def next_tok_def next0_def Let_def NoPos_def IsValid_def demoFile_def
  demoTokenString_def error_def Add_def isIndent_def errorExpected_def expect_def
  expectClosing_def assert_def expectSemi_def atComma_def
  scopeAt_def getObj_def setObj_def newIdent_def NewScope_def openScope_def closeScope_def
  openLabelScope_def closeLabelScope_def PosOf_def declareIdent_def tryResolve_def
  resolve_def parseIdent_def NewObj_def Lookup_def Insert_def IsLiteral_def
  apostrophe_def newline_def tab_def

lemmas run_prods =
  parseTypeName_def some_result_def tryIdentOrType_def tryType_def parseParameters_def
  parseResult_def parseSignature_def parseReturnStmt_def parseBranchStmt_def
  parseSmallStmt_def parseBody_def parseBlockStmt_def parseReceiver_def parseFuncName_def
  parseFuncDecl_def parseDecl_p_def parseDo_def parseCallOrConversion_def
  fileDecls_def fileEnd_def parseFile_def noGrammar_def notEmbedded_def basic_def

text \<open>Reporting one error after the other at the given positions, as a parse does.\<close>

fun errorAll :: "Pos list \<Rightarrow> parser \<Rightarrow> abort + parser" where
  "errorAll [] p = Inr p"
| "errorAll (ps # rest) p =
     (case error p ps ''syntax error'' of Inl e \<Rightarrow> Inl e | Inr p1 \<Rightarrow> errorAll rest p1)"

text \<open>
  The state in which \<^verbatim>\<open>parseFile\<close> reaches the declarations of a file: the package scope
  is open and is the innermost scope.  \<open>demoDecls\<close> is the source

  \<^verbatim>\<open>func T.m(): return\<close>, \<^verbatim>\<open>func U.n(): return\<close>, \<^verbatim>\<open>func T(): return\<close>

  one declaration a line, lines 2 to 4 of the file.
\<close>

definition atDecls :: "scanned list \<Rightarrow> Pos \<Rightarrow> modeFlag set \<Rightarrow> parser" where
  "atDecls src srcend m =
     (let p = openScope (init demoFile src srcend m) in p\<lparr>pkgScope := topScope p\<rparr>)"

definition demoDecls :: "scanned list" where
  "demoDecls =
     [scan 101 FUNC ''func'', scan 106 IDENT ''T'', scan 107 PERIOD ''.'', scan 108 IDENT ''m'',
      scan 109 LPAREN ''('', scan 110 RPAREN '')'', scan 111 COLON '':'',
      scan 113 RETURN ''return'', scan 119 SEMICOLON newline,
      scan 201 FUNC ''func'', scan 206 IDENT ''U'', scan 207 PERIOD ''.'', scan 208 IDENT ''n'',
      scan 209 LPAREN ''('', scan 210 RPAREN '')'', scan 211 COLON '':'',
      scan 213 RETURN ''return'', scan 219 SEMICOLON newline,
      scan 301 FUNC ''func'', scan 306 IDENT ''T'', scan 307 LPAREN ''('',
      scan 308 RPAREN '')'', scan 309 COLON '':'', scan 311 RETURN ''return'',
      scan 317 SEMICOLON newline]"

text \<open>The file of the package clause \<^verbatim>\<open>package p\<close> and the declarations of \<open>demoDecls\<close>.\<close>

definition demoSource :: "scanned list" where
  "demoSource =
     [scan 1 PACKAGE ''package'', scan 9 IDENT ''p'', scan 10 SEMICOLON newline] @ demoDecls"

text \<open>
  Three declarations, each the second line of a file: the function \<^verbatim>\<open>func f(): return\<close>,
  the function \<^verbatim>\<open>func init(): return\<close> and the method \<^verbatim>\<open>func T.m(): return\<close>.
\<close>

definition demoFunc :: "scanned list" where
  "demoFunc =
     [scan 101 FUNC ''func'', scan 106 IDENT ''f'', scan 107 LPAREN ''('',
      scan 108 RPAREN '')'', scan 109 COLON '':'', scan 111 RETURN ''return'',
      scan 117 SEMICOLON newline]"

definition demoInit :: "scanned list" where
  "demoInit =
     [scan 101 FUNC ''func'', scan 106 IDENT ''init'', scan 110 LPAREN ''('',
      scan 111 RPAREN '')'', scan 112 COLON '':'', scan 114 RETURN ''return'',
      scan 120 SEMICOLON newline]"

definition demoMethod :: "scanned list" where
  "demoMethod =
     [scan 101 FUNC ''func'', scan 106 IDENT ''T'', scan 107 PERIOD ''.'', scan 108 IDENT ''m'',
      scan 109 LPAREN ''('', scan 110 RPAREN '')'', scan 111 COLON '':'',
      scan 113 RETURN ''return'', scan 119 SEMICOLON newline]"

text \<open>
  A printer that writes nothing and keeps the list of what it was asked to do: each call of
  \<^verbatim>\<open>print\<close> with its arguments, and each call of the methods that \<^verbatim>\<open>expr1\<close> hands over to.
  Lines are 100 wide, as in \<open>demoFile\<close>.
\<close>

datatype printed =
    Printed "printArg list"
  | Expr1 expr int int
  | ExprList Pos "expr list" int nat Pos
  | Signature "fieldList option" "fieldList option"
  | AdjBlock blockStmt

definition logPrinter :: "printed list printerOps" where
  "logPrinter =
     \<lparr>print = (\<lambda>args s. s @ [Printed args]),
      expr1 = (\<lambda>x prec depth s. s @ [Expr1 x prec depth]),
      exprList = (\<lambda>prev0 list depth m next0 s. s @ [ExprList prev0 list depth m next0]),
      signature = (\<lambda>params results s. s @ [Signature params results]),
      adjBlock = (\<lambda>b s. s @ [AdjBlock b]),
      lineFor = (\<lambda>ps s. ps div 100 + 1),
      ExprPos = (\<lambda>x. case x of CallExpr (Ident f) l a e r \<Rightarrow> NamePos f | _ \<Rightarrow> NoPos),
      HighestPrec = 7\<rparr>"

text \<open>
  A grammar whose arguments are identifiers: the production for an argument reads one
  identifier; the others are not embedded.
\<close>

definition identArgs :: grammar where
  "identArgs =
     noGrammar\<lparr>parseRhsOrType :=
       (\<lambda>p. case parseIdent p of Inl e \<Rightarrow> Inl e | Inr (i, q) \<Rightarrow> Inr (Ident i, q))\<rparr>"

text \<open>
  The tokens of \<^verbatim>\<open>(a, b) do (): return\<close> and of \<^verbatim>\<open>(xs...) do (): return\<close>, on the first line
  of a file, after \<^verbatim>\<open>f\<close>.
\<close>

definition demoCall2 :: "scanned list" where
  "demoCall2 =
     [scan 2 LPAREN ''('', scan 3 IDENT ''a'', scan 4 COMMA '','', scan 6 IDENT ''b'',
      scan 7 RPAREN '')'', scan 9 DO ''do'', scan 12 LPAREN ''('', scan 13 RPAREN '')'',
      scan 14 COLON '':'', scan 16 RETURN ''return'', scan 22 SEMICOLON newline]"

definition demoCallEllipsis :: "scanned list" where
  "demoCallEllipsis =
     [scan 2 LPAREN ''('', scan 3 IDENT ''xs'', scan 5 ELLIPSIS ''...'', scan 8 RPAREN '')'',
      scan 10 DO ''do'', scan 13 LPAREN ''('', scan 14 RPAREN '')'', scan 15 COLON '':'',
      scan 17 RETURN ''return'', scan 23 SEMICOLON newline]"

text \<open>
  A medium to run \<^verbatim>\<open>Write\<close> and \<^verbatim>\<open>Read\<close>: a queue of values, as a stream of encoded values
  is. \<^verbatim>\<open>encode\<close> appends a value and \<^verbatim>\<open>decode\<close> takes the first; it fails on the empty queue.
\<close>

definition fifoEncode ::
  "serializedFileSet \<Rightarrow> serializedFileSet list \<Rightarrow> unit option \<times> serializedFileSet list" where
  "fifoEncode ss w = (None, w @ [ss])"

definition fifoDecode ::
  "serializedFileSet list \<Rightarrow> unit option \<times> serializedFileSet \<times> serializedFileSet list" where
  "fifoDecode w =
     (case w of
        [] \<Rightarrow> (Some (), \<lparr>ssBase = 0, ssFiles = []\<rparr>, [])
      | ss # rest \<Rightarrow> (None, ss, rest))"

section \<open>What advancing changes\<close>

text \<open>
  \<^verbatim>\<open>parser.next\<close> reads the scanner and the comments. It leaves alone every part of the parser
  that the scanner, the comments and the current token are not: \<open>f\<close> is any such part.
\<close>

lemma consumeComments_frame:
  assumes "\<And>q. f (next0 q) = f q"
  shows "f (snd (consumeComments n list endline p)) = f p"
proof (induction n list endline p rule: consumeComments.induct)
  case (1 n list endline p)
  show ?case
  proof (cases "tok p = COMMENT \<and> LineOf (tfile p) (pos p) \<le> endline + n")
    case True
    then have "f (snd (consumeComments n list endline p)) = f (snd (consumeComment p))"
      using "1.IH" by (subst consumeComments.simps) simp
    then show ?thesis
      by (simp add: consumeComment_def assms)
  next
    case False
    then show ?thesis by (subst consumeComments.simps) auto
  qed
qed

lemma consumeCommentGroup_frame:
  assumes "\<And>q. f (next0 q) = f q" and "\<And>q x. f (q\<lparr>comments := x\<rparr>) = f q"
  shows "f (snd (consumeCommentGroup n p)) = f p"
  using consumeComments_frame [of f n "[]" "LineOf (tfile p) (pos p)" p, OF assms(1)]
  by (simp add: consumeCommentGroup_def case_prod_beta assms(2))

lemma nextGroups_frame:
  assumes "\<And>q. f (next0 q) = f q" and "\<And>q x. f (q\<lparr>comments := x\<rparr>) = f q"
  shows "f (snd (nextGroups cmt endline p)) = f p"
proof (induction cmt endline p rule: nextGroups.induct)
  case (1 cmt endline p)
  show ?case
  proof (cases "tok p = COMMENT")
    case True
    then have "f (snd (nextGroups cmt endline p)) = f (snd (consumeCommentGroup 1 p))"
      using "1.IH" by (subst nextGroups.simps) simp
    then show ?thesis
      by (simp add: consumeCommentGroup_frame [of f, OF assms])
  next
    case False
    then show ?thesis by (subst nextGroups.simps) simp
  qed
qed

lemma next_tok_frame:
  assumes n: "\<And>q. f (next0 q) = f q" and c: "\<And>q x. f (q\<lparr>comments := x\<rparr>) = f q"
    and l: "\<And>q x. f (q\<lparr>leadComment := x\<rparr>) = f q"
    and i: "\<And>q x. f (q\<lparr>lineComment := x\<rparr>) = f q"
  shows "f (next_tok p) = f p"
proof -
  note g = consumeCommentGroup_frame [of f, OF n c]
  note r = nextGroups_frame [of f, OF n c]
  show ?thesis
    unfolding next_tok_def Let_def
    by (simp add: case_prod_beta n l i g r)
qed

lemma next0_scoping:
  "pkgScope (next0 p) = pkgScope p" "topScope (next0 p) = topScope p"
  "unresolved (next0 p) = unresolved p" "mode (next0 p) = mode p"
  "labelScope (next0 p) = labelScope p"
  by (cases "input p"; simp add: next0_def)+

lemma next_tok_scoping:
  "pkgScope (next_tok p) = pkgScope p" "topScope (next_tok p) = topScope p"
  "unresolved (next_tok p) = unresolved p" "mode (next_tok p) = mode p"
  "labelScope (next_tok p) = labelScope p"
  by (rule next_tok_frame; simp add: next0_scoping)+

text \<open>
  So advancing commutes with a change \<open>u\<close> of such a part; with a change of the store, of
  the innermost scope and of the expression level in particular.
\<close>

lemma next0_heap_upd: "next0 (p\<lparr>heap := h\<rparr>) = (next0 p)\<lparr>heap := h\<rparr>"
  by (cases "input p") (simp_all add: next0_def)

lemma consumeComments_heap_upd:
  "consumeComments n l e (p\<lparr>heap := h\<rparr>)
     = (fst (consumeComments n l e p), (snd (consumeComments n l e p))\<lparr>heap := h\<rparr>)"
proof (induction n l e p rule: consumeComments.induct)
  case (1 n list endline p)
  show ?case
  proof (cases "tok p = COMMENT \<and> LineOf (tfile p) (pos p) \<le> endline + n")
    case True
    let ?l = "list @ [\<lparr>Slash = pos p, Text = lit p\<rparr>]"
    let ?e = "LineOf (tfile p) (pos p)"
    have a: "consumeComments n list endline p = consumeComments n ?l ?e (next0 p)"
      using True by (subst consumeComments.simps) (simp add: consumeComment_def)
    have b: "consumeComments n list endline (p\<lparr>heap := h\<rparr>)
               = consumeComments n ?l ?e ((next0 p)\<lparr>heap := h\<rparr>)"
      using True by (subst consumeComments.simps) (simp add: consumeComment_def next0_heap_upd)
    show ?thesis
      using "1.IH" True by (simp add: a b consumeComment_def)
  next
    case False
    have a: "consumeComments n list endline p = ((list, endline), p)"
      using False by (subst consumeComments.simps) auto
    have b: "consumeComments n list endline (p\<lparr>heap := h\<rparr>) = ((list, endline), p\<lparr>heap := h\<rparr>)"
      using False by (subst consumeComments.simps) auto
    show ?thesis
      by (simp add: a b)
  qed
qed

lemma consumeCommentGroup_heap_upd:
  "consumeCommentGroup n (p\<lparr>heap := h\<rparr>)
     = (fst (consumeCommentGroup n p), (snd (consumeCommentGroup n p))\<lparr>heap := h\<rparr>)"
  by (simp add: consumeCommentGroup_def consumeComments_heap_upd case_prod_beta)

lemma nextGroups_heap_upd:
  "nextGroups c e (p\<lparr>heap := h\<rparr>)
     = (fst (nextGroups c e p), (snd (nextGroups c e p))\<lparr>heap := h\<rparr>)"
proof (induction c e p rule: nextGroups.induct)
  case (1 cmt endline p)
  show ?case
  proof (cases "tok p = COMMENT")
    case True
    let ?g = "consumeCommentGroup 1 p"
    have a: "nextGroups cmt endline p = nextGroups (Some (fst (fst ?g))) (snd (fst ?g)) (snd ?g)"
      using True by (subst nextGroups.simps) simp
    have b: "nextGroups cmt endline (p\<lparr>heap := h\<rparr>)
               = nextGroups (Some (fst (fst ?g))) (snd (fst ?g)) ((snd ?g)\<lparr>heap := h\<rparr>)"
      using True by (subst nextGroups.simps) (simp add: consumeCommentGroup_heap_upd)
    show ?thesis
      using "1.IH" True by (simp add: a b)
  next
    case False
    have a: "nextGroups cmt endline p = ((cmt, endline), p)"
      using False by (subst nextGroups.simps) simp
    have b: "nextGroups cmt endline (p\<lparr>heap := h\<rparr>) = ((cmt, endline), p\<lparr>heap := h\<rparr>)"
      using False by (subst nextGroups.simps) simp
    show ?thesis
      by (simp add: a b)
  qed
qed

lemma next_tok_heap_upd: "next_tok (p\<lparr>heap := h\<rparr>) = (next_tok p)\<lparr>heap := h\<rparr>"
proof -
  have u: "p\<lparr>heap := h, leadComment := None, lineComment := None\<rparr>
             = p\<lparr>leadComment := None, lineComment := None, heap := h\<rparr>"
    by simp
  have l: "q\<lparr>heap := h, lineComment := c\<rparr> = q\<lparr>lineComment := c, heap := h\<rparr>" for q c
    by simp
  have d: "q\<lparr>heap := h, leadComment := c\<rparr> = q\<lparr>leadComment := c, heap := h\<rparr>" for q c
    by simp
  show ?thesis
    unfolding next_tok_def Let_def u next0_heap_upd
    by (simp add: consumeCommentGroup_heap_upd nextGroups_heap_upd case_prod_beta l d
             del: update_convs)
qed

lemma next_tok_heap: "heap (next_tok p) = heap p"
proof -
  have "next_tok (p\<lparr>heap := heap p\<rparr>) = (next_tok p)\<lparr>heap := heap p\<rparr>"
    by (rule next_tok_heap_upd)
  then have "heap (next_tok p) = heap ((next_tok p)\<lparr>heap := heap p\<rparr>)"
    by simp
  then show ?thesis
    by simp
qed

lemma consumeComments_commute:
  assumes n: "\<And>q. next0 (u q) = u (next0 q)"
    and t: "\<And>q. tok (u q) = tok q" "\<And>q. pos (u q) = pos q" "\<And>q. lit (u q) = lit q"
      "\<And>q. tfile (u q) = tfile q"
  shows "consumeComments k l e (u p)
           = (fst (consumeComments k l e p), u (snd (consumeComments k l e p)))"
proof (induction k l e p rule: consumeComments.induct)
  case (1 k list endline p)
  show ?case
  proof (cases "tok p = COMMENT \<and> LineOf (tfile p) (pos p) \<le> endline + k")
    case True
    let ?l = "list @ [\<lparr>Slash = pos p, Text = lit p\<rparr>]"
    let ?e = "LineOf (tfile p) (pos p)"
    have a: "consumeComments k list endline p = consumeComments k ?l ?e (next0 p)"
      using True by (subst consumeComments.simps) (simp add: consumeComment_def)
    have b: "consumeComments k list endline (u p) = consumeComments k ?l ?e (u (next0 p))"
      using True by (subst consumeComments.simps) (simp add: consumeComment_def n t)
    show ?thesis
      using "1.IH" True by (simp add: a b consumeComment_def)
  next
    case False
    have a: "consumeComments k list endline p = ((list, endline), p)"
      using False by (subst consumeComments.simps) auto
    have b: "consumeComments k list endline (u p) = ((list, endline), u p)"
      using False by (subst consumeComments.simps) (auto simp: t)
    show ?thesis
      by (simp add: a b)
  qed
qed

lemma consumeCommentGroup_commute:
  assumes n: "\<And>q. next0 (u q) = u (next0 q)"
    and t: "\<And>q. tok (u q) = tok q" "\<And>q. pos (u q) = pos q" "\<And>q. lit (u q) = lit q"
      "\<And>q. tfile (u q) = tfile q"
    and c: "\<And>q. comments (u q) = comments q" "\<And>q x. (u q)\<lparr>comments := x\<rparr> = u (q\<lparr>comments := x\<rparr>)"
  shows "consumeCommentGroup k (u p)
           = (fst (consumeCommentGroup k p), u (snd (consumeCommentGroup k p)))"
  by (simp add: consumeCommentGroup_def consumeComments_commute [of u, OF n t] case_prod_beta
                t c)

lemma nextGroups_commute:
  assumes n: "\<And>q. next0 (u q) = u (next0 q)"
    and t: "\<And>q. tok (u q) = tok q" "\<And>q. pos (u q) = pos q" "\<And>q. lit (u q) = lit q"
      "\<And>q. tfile (u q) = tfile q"
    and c: "\<And>q. comments (u q) = comments q" "\<And>q x. (u q)\<lparr>comments := x\<rparr> = u (q\<lparr>comments := x\<rparr>)"
  shows "nextGroups cmt e (u p) = (fst (nextGroups cmt e p), u (snd (nextGroups cmt e p)))"
proof (induction cmt e p rule: nextGroups.induct)
  case (1 cmt endline p)
  note g = consumeCommentGroup_commute [of u, OF n t c]
  show ?case
  proof (cases "tok p = COMMENT")
    case True
    let ?g = "consumeCommentGroup 1 p"
    have a: "nextGroups cmt endline p = nextGroups (Some (fst (fst ?g))) (snd (fst ?g)) (snd ?g)"
      using True by (subst nextGroups.simps) simp
    have b: "nextGroups cmt endline (u p)
               = nextGroups (Some (fst (fst ?g))) (snd (fst ?g)) (u (snd ?g))"
      using True by (subst nextGroups.simps) (simp add: g t)
    show ?thesis
      using "1.IH" True by (simp add: a b)
  next
    case False
    have a: "nextGroups cmt endline p = ((cmt, endline), p)"
      using False by (subst nextGroups.simps) simp
    have b: "nextGroups cmt endline (u p) = ((cmt, endline), u p)"
      using False by (subst nextGroups.simps) (simp add: t)
    show ?thesis
      by (simp add: a b)
  qed
qed

lemma next_tok_commute:
  assumes n: "\<And>q. next0 (u q) = u (next0 q)"
    and t: "\<And>q. tok (u q) = tok q" "\<And>q. pos (u q) = pos q" "\<And>q. lit (u q) = lit q"
      "\<And>q. tfile (u q) = tfile q"
    and c: "\<And>q. comments (u q) = comments q" "\<And>q x. (u q)\<lparr>comments := x\<rparr> = u (q\<lparr>comments := x\<rparr>)"
    and l: "\<And>q x. (u q)\<lparr>leadComment := x\<rparr> = u (q\<lparr>leadComment := x\<rparr>)"
      "\<And>q x. (u q)\<lparr>lineComment := x\<rparr> = u (q\<lparr>lineComment := x\<rparr>)"
  shows "next_tok (u p) = u (next_tok p)"
proof -
  note g = consumeCommentGroup_commute [of u, OF n t c]
  note r = nextGroups_commute [of u, OF n t c]
  have i: "next0 ((u p)\<lparr>leadComment := None, lineComment := None\<rparr>)
             = u (next0 (p\<lparr>leadComment := None, lineComment := None\<rparr>))"
    by (simp add: l n)
  show ?thesis
    unfolding next_tok_def Let_def i
    by (simp add: g r t l case_prod_beta)
qed

lemma next_tok_topScope_upd: "next_tok (p\<lparr>topScope := x\<rparr>) = (next_tok p)\<lparr>topScope := x\<rparr>"
  by (rule next_tok_commute [of "\<lambda>q. q\<lparr>topScope := x\<rparr>"])
     (simp_all add: next0_def split: list.splits)

lemma next_tok_exprLev_upd: "next_tok (p\<lparr>exprLev := x\<rparr>) = (next_tok p)\<lparr>exprLev := x\<rparr>"
  by (rule next_tok_commute [of "\<lambda>q. q\<lparr>exprLev := x\<rparr>"])
     (simp_all add: next0_def split: list.splits)

text \<open>
  Advancing takes tokens from the scanner and gives none back; at the end of the source the
  token is \<^verbatim>\<open>EOF\<close>.
\<close>

lemma consumeComments_le:
  fixes m :: "parser \<Rightarrow> nat"
  assumes "\<And>q. m (next0 q) \<le> m q"
  shows "m (snd (consumeComments k l e p)) \<le> m p"
proof (induction k l e p rule: consumeComments.induct)
  case (1 k list endline p)
  show ?case
  proof (cases "tok p = COMMENT \<and> LineOf (tfile p) (pos p) \<le> endline + k")
    case True
    then have "m (snd (consumeComments k list endline p)) \<le> m (snd (consumeComment p))"
      using "1.IH" by (subst consumeComments.simps) simp
    also have "\<dots> \<le> m p"
      by (simp add: consumeComment_def assms)
    finally show ?thesis .
  next
    case False
    then show ?thesis by (subst consumeComments.simps) auto
  qed
qed

lemma consumeCommentGroup_le:
  fixes m :: "parser \<Rightarrow> nat"
  assumes "\<And>q. m (next0 q) \<le> m q" and "\<And>q x. m (q\<lparr>comments := x\<rparr>) = m q"
  shows "m (snd (consumeCommentGroup k p)) \<le> m p"
  using consumeComments_le [of m k "[]" "LineOf (tfile p) (pos p)" p, OF assms(1)]
  by (simp add: consumeCommentGroup_def case_prod_beta assms(2))

lemma nextGroups_le:
  fixes m :: "parser \<Rightarrow> nat"
  assumes "\<And>q. m (next0 q) \<le> m q" and "\<And>q x. m (q\<lparr>comments := x\<rparr>) = m q"
  shows "m (snd (nextGroups cmt endline p)) \<le> m p"
proof (induction cmt endline p rule: nextGroups.induct)
  case (1 cmt endline p)
  show ?case
  proof (cases "tok p = COMMENT")
    case True
    then have "m (snd (nextGroups cmt endline p)) \<le> m (snd (consumeCommentGroup 1 p))"
      using "1.IH" by (subst nextGroups.simps) simp
    also have "\<dots> \<le> m p"
      by (rule consumeCommentGroup_le [of m, OF assms])
    finally show ?thesis .
  next
    case False
    then show ?thesis by (subst nextGroups.simps) simp
  qed
qed

lemma input_next0: "length (input (next0 p)) = length (input p) - 1"
  by (cases "input p") (simp_all add: next0_def)

lemma input_next_tok: "length (input (next_tok p)) \<le> length (input p) - 1"
proof -
  let ?m = "\<lambda>q. length (input q)"
  let ?p1 = "next0 (p\<lparr>leadComment := None, lineComment := None\<rparr>)"
  define N where "N = length (input p) - 1"
  have n: "?m (next0 q) \<le> ?m q" for q
    by (simp add: input_next0)
  have a: "?m ?p1 \<le> N"
    by (simp add: input_next0 N_def)
  have b: "?m (snd (consumeCommentGroup 0 ?p1)) \<le> N"
    using consumeCommentGroup_le [of ?m 0 ?p1] n a by simp
  have c: "?m (snd (nextGroups x e q)) \<le> N" if "?m q \<le> N" for x e q
    using nextGroups_le [of ?m x e q] n that by simp
  have "?m (next_tok p) \<le> N"
    unfolding next_tok_def Let_def
    by (auto simp: a b case_prod_beta intro!: c)
  then show ?thesis
    by (simp add: N_def)
qed

lemma next_tok_at_end: "input p = [] \<Longrightarrow> tok (next_tok p) = EOF"
  by (simp add: next_tok_def next0_def Let_def)

text \<open>
  The token before the current one is the one advanced from, or a comment that was skipped.
  A scope opened is the scope closed, as long as the store and the innermost scope stay.
\<close>

lemma ptok_consumeComments:
  "ptok (snd (consumeComments k l e p)) = ptok p \<or> ptok (snd (consumeComments k l e p)) = COMMENT"
proof (induction k l e p rule: consumeComments.induct)
  case (1 k list endline p)
  show ?case
  proof (cases "tok p = COMMENT \<and> LineOf (tfile p) (pos p) \<le> endline + k")
    case True
    let ?l = "list @ [\<lparr>Slash = pos p, Text = lit p\<rparr>]"
    let ?e = "LineOf (tfile p) (pos p)"
    have a: "consumeComments k list endline p = consumeComments k ?l ?e (next0 p)"
      using True by (subst consumeComments.simps) (simp add: consumeComment_def)
    have "ptok (next0 p) = COMMENT"
      using True by (cases "input p") (simp_all add: next0_def)
    then show ?thesis
      using "1.IH" True by (auto simp: a consumeComment_def)
  next
    case False
    then show ?thesis by (subst consumeComments.simps, subst consumeComments.simps) auto
  qed
qed

lemma ptok_consumeCommentGroup:
  "ptok (snd (consumeCommentGroup k p)) = ptok p \<or> ptok (snd (consumeCommentGroup k p)) = COMMENT"
  using ptok_consumeComments [of k "[]" "LineOf (tfile p) (pos p)" p]
  by (simp add: consumeCommentGroup_def case_prod_beta)

lemma ptok_nextGroups:
  "ptok (snd (nextGroups c e p)) = ptok p \<or> ptok (snd (nextGroups c e p)) = COMMENT"
proof (induction c e p rule: nextGroups.induct)
  case (1 cmt endline p)
  show ?case
  proof (cases "tok p = COMMENT")
    case True
    let ?g = "consumeCommentGroup 1 p"
    have a: "nextGroups cmt endline p = nextGroups (Some (fst (fst ?g))) (snd (fst ?g)) (snd ?g)"
      using True by (subst nextGroups.simps) simp
    show ?thesis
      using "1.IH" True ptok_consumeCommentGroup [of 1 p] by (auto simp: a)
  next
    case False
    then show ?thesis by (subst nextGroups.simps, subst nextGroups.simps) simp
  qed
qed

lemma ptok_next_tok: "ptok (next_tok p) = tok p \<or> ptok (next_tok p) = COMMENT"
proof -
  let ?p1 = "next0 (p\<lparr>leadComment := None, lineComment := None\<rparr>)"
  have a: "ptok ?p1 = tok p"
    by (cases "input p") (simp_all add: next0_def)
  have b: "ptok (snd (consumeCommentGroup 0 ?p1)) = tok p
           \<or> ptok (snd (consumeCommentGroup 0 ?p1)) = COMMENT"
    using ptok_consumeCommentGroup [of 0 ?p1] a by simp
  have c: "ptok (snd (nextGroups x e q)) = tok p \<or> ptok (snd (nextGroups x e q)) = COMMENT"
    if "ptok q = tok p \<or> ptok q = COMMENT" for x e q
    using ptok_nextGroups [of x e q] that by auto
  show ?thesis
    unfolding next_tok_def Let_def
    using a b by (auto simp: case_prod_beta intro!: c)
qed

lemma next_tok_openScope: "next_tok (openScope p) = openScope (next_tok p)"
  by (simp add: openScope_def NewScope_def next_tok_heap_upd next_tok_topScope_upd
                next_tok_heap next_tok_scoping)

lemma closeScope_openScope:
  "heap q = heap (openScope p) \<Longrightarrow> topScope q = topScope (openScope p)
     \<Longrightarrow> closeScope q = Inr (q\<lparr>topScope := topScope p\<rparr>)"
  by (simp add: closeScope_def openScope_def NewScope_def scopeAt_def)

section \<open>The error cap\<close>

text \<open>
  C1, as the code has it. With \<^verbatim>\<open>AllErrors\<close> unset, \<^verbatim>\<open>parser.error\<close> does one of three
  things. An error on the line of the last recorded error is discarded, however many errors
  there are. Another error raises the bailout when more than 10 errors are in the list, and
  is appended when at most 10 are. So \<^verbatim>\<open>parser.error\<close> appends to a list of at most 10 errors
  only: the 11th error is recorded, and the bailout comes with the next error on a fresh
  line. The errors of the scanner do not pass through \<^verbatim>\<open>parser.error\<close>: advancing appends
  them to the list as they are.
\<close>

theorem C1_error_cap:
  "AllErrors \<notin> mode p \<Longrightarrow>
     error p ps msg
       = (if errors p \<noteq> [] \<and> Line (ErrPos (last (errors p))) = Line (Position (tfile p) ps)
          then Inr p
          else if 10 < length (errors p) then Inl Bailout
          else Inr (p\<lparr>errors := errors p @ [\<lparr>ErrPos = Position (tfile p) ps, Msg = msg\<rparr>]\<rparr>))
     \<and> (\<forall>p'. error p ps msg = Inr p' \<longrightarrow>
           p' = p
           \<or> length (errors p) \<le> 10
             \<and> p' = p\<lparr>errors := errors p @ [\<lparr>ErrPos = Position (tfile p) ps, Msg = msg\<rparr>]\<rparr>)
     \<and> (\<forall>s rest. input p = s # rest \<longrightarrow> errors (next0 p) = errors p @ ScanErrs s)"
  by (cases "errors p = []")
     (auto simp: error_def Let_def Add_def last_conv_nth next0_def)

text \<open>
  Ten errors on ten lines, then an error on the tenth line, discarded; an eleventh on a fresh
  line, recorded; then an error on that line, discarded, and one on a fresh line, the bailout.
\<close>

theorem C1_error_cap_witness:
  "(case errorAll [1, 101, 201, 301, 401, 501, 601, 701, 801, 901] (init demoFile [] 1 {}) of
      Inl e \<Rightarrow> False
    | Inr p10 \<Rightarrow>
        AllErrors \<notin> mode p10 \<and> length (errors p10) = 10
        \<and> error p10 902 ''syntax error'' = Inr p10
        \<and> (case error p10 1001 ''syntax error'' of
              Inl e \<Rightarrow> False
            | Inr p11 \<Rightarrow>
                AllErrors \<notin> mode p11 \<and> length (errors p11) = 11
                \<and> error p11 1002 ''syntax error'' = Inr p11
                \<and> error p11 1101 ''syntax error'' = Inl Bailout))"
proof -
  let ?e = "\<lambda>k. \<lparr>ErrPos = Position demoFile k, Msg = ''syntax error''\<rparr>"
  obtain p10 where r: "errorAll [1, 101, 201, 301, 401, 501, 601, 701, 801, 901]
                         (init demoFile [] 1 {}) = Inr p10"
    and m: "AllErrors \<notin> mode p10" and f: "tfile p10 = demoFile"
    and e: "errors p10 = map ?e [1, 101, 201, 301, 401, 501, 601, 701, 801, 901]"
    by (simp add: init_def next_tok_def next0_def Let_def NoPos_def error_def Add_def
                  demoFile_def)
  let ?p11 = "p10\<lparr>errors := errors p10 @ [?e 1001]\<rparr>"
  have a: "error p10 902 ''syntax error'' = Inr p10"
    using C1_error_cap [OF m, of 902 "''syntax error''"] by (simp add: e f demoFile_def)
  have b: "error p10 1001 ''syntax error'' = Inr ?p11"
    using C1_error_cap [OF m, of 1001 "''syntax error''"] by (simp add: e f demoFile_def)
  have m': "AllErrors \<notin> mode ?p11"
    using m by simp
  have c: "error ?p11 1002 ''syntax error'' = Inr ?p11"
    using C1_error_cap [OF m', of 1002 "''syntax error''"] by (simp add: e f demoFile_def)
  have d: "error ?p11 1101 ''syntax error'' = Inl Bailout"
    using C1_error_cap [OF m', of 1101 "''syntax error''"] by (simp add: e f demoFile_def)
  show ?thesis
    using r m a b c d by (simp add: e)
qed

text \<open>
  C1 as stated fails: eleven errors on eleven lines are all recorded, and no bailout is
  raised at the eleventh.
\<close>

theorem C1_counterexample:
  "(case errorAll [1, 101, 201, 301, 401, 501, 601, 701, 801, 901, 1001]
           (init demoFile [] 1 {}) of
      Inl e \<Rightarrow> False
    | Inr p \<Rightarrow> length (errors p) = 11)"
  by (simp add: init_def next_tok_def next0_def Let_def NoPos_def error_def Add_def demoFile_def)

section \<open>The type column of grouped declarations\<close>

lemma populate_length [simp]: "length (populate m i j b) = length m"
proof -
  have "length (fold (\<lambda>k m'. m'[k := True]) ks m) = length m" for ks
    by (induction ks arbitrary: m) simp_all
  then show ?thesis by (simp add: populate_def)
qed

lemma fold_update_nth:
  "k < length m \<Longrightarrow> fold (\<lambda>k m'. m'[k := True]) ks m ! k = (k \<in> set ks \<or> m ! k)"
proof (induction ks arbitrary: m)
  case Nil
  then show ?case by simp
next
  case (Cons a ks)
  have "m[a := True] ! k = (a = k \<or> m ! k)"
    using Cons.prems by (cases "a = k") simp_all
  then show ?case using Cons by auto
qed

lemma populate_nth:
  "k < length m \<Longrightarrow> populate m i j b ! k = ((b \<and> i \<le> k \<and> k < j) \<or> m ! k)"
  by (auto simp: populate_def fold_update_nth)

lemma maximalRun_unique:
  assumes "maximalRun specs lo hi" "maximalRun specs lo' hi'"
    and "lo \<le> k" "k < hi" "lo' \<le> k" "k < hi'"
  shows "lo' = lo \<and> hi' = hi"
proof -
  have a: "\<not> lo' < lo"
  proof
    assume l: "lo' < lo"
    then have "lo - 1 \<in> {lo'..<hi'}" using assms(3,6) by auto
    then have "hasValues (specs ! (lo - 1))" using assms(2) by (auto simp: maximalRun_def)
    then show False using assms(1) l by (auto simp: maximalRun_def)
  qed
  have b: "\<not> lo < lo'"
  proof
    assume l: "lo < lo'"
    then have "lo' - 1 \<in> {lo..<hi}" using assms(5,4) by auto
    then have "hasValues (specs ! (lo' - 1))" using assms(1) by (auto simp: maximalRun_def)
    then show False using assms(2) l by (auto simp: maximalRun_def)
  qed
  have c: "\<not> hi < hi'"
  proof
    assume l: "hi < hi'"
    then have "hi \<in> {lo'..<hi'}" using assms(5,4) by auto
    then have "hasValues (specs ! hi)" using assms(2) by (auto simp: maximalRun_def)
    then show False using assms(1,2) l by (auto simp: maximalRun_def)
  qed
  have d: "\<not> hi' < hi"
  proof
    assume l: "hi' < hi"
    then have "hi' \<in> {lo..<hi}" using assms(3,6) by auto
    then have "hasValues (specs ! hi')" using assms(1) by (auto simp: maximalRun_def)
    then show False using assms(1,2) l by (auto simp: maximalRun_def)
  qed
  show ?thesis using a b c d by simp
qed

lemma inTypedRun_run:
  assumes "maximalRun specs lo hi" "lo \<le> k" "k < hi"
  shows "inTypedRun specs k = (\<exists>j \<in> {lo..<hi}. hasType (specs ! j))"
proof
  assume "inTypedRun specs k"
  then obtain lo' hi' where "lo' \<in> {..k}" "hi' \<in> {k<..length specs}"
    and r1: "maximalRun specs lo' hi'"
    and t: "\<exists>j \<in> {lo'..<hi'}. hasType (specs ! j)"
    unfolding inTypedRun_def by blast
  then have r: "maximalRun specs lo' hi'" "lo' \<le> k" "k < hi'"
    by simp_all
  from maximalRun_unique [OF assms(1) r(1) assms(2,3) r(2,3)] t
  show "\<exists>j \<in> {lo..<hi}. hasType (specs ! j)" by simp
next
  assume "\<exists>j \<in> {lo..<hi}. hasType (specs ! j)"
  moreover have "hi \<le> length specs" using assms(1) by (simp add: maximalRun_def)
  ultimately show "inTypedRun specs k"
    using assms unfolding inTypedRun_def by (intro bexI [of _ lo] bexI [of _ hi]) auto
qed

lemma inTypedRun_noValues:
  assumes "k < length specs" "\<not> hasValues (specs ! k)"
  shows "\<not> inTypedRun specs k"
  using assms by (auto simp: inTypedRun_def maximalRun_def)

lemma ktInv_start:
  assumes "ktInv specs i (m, i0, kt)" "i < length specs" "hasValues (specs ! i)" "i0 < 0"
  shows "ktInv specs (Suc i) (m, int i, hasType (specs ! i))"
  using assms unfolding ktInv_def by (simp add: less_Suc_eq)

lemma ktInv_continue:
  assumes "ktInv specs i (m, i0, kt)" "i < length specs" "hasValues (specs ! i)" "\<not> i0 < 0"
  shows "ktInv specs (Suc i) (m, i0, kt \<or> hasType (specs ! i))"
proof -
  have "{nat i0..<Suc i} = insert i {nat i0..<i}"
    using assms unfolding ktInv_def by auto
  then show ?thesis
    using assms unfolding ktInv_def by (simp add: less_Suc_eq) blast
qed

lemma ktInv_outside:
  assumes "ktInv specs i (m, i0, kt)" "i < length specs" "\<not> hasValues (specs ! i)" "i0 < 0"
  shows "ktInv specs (Suc i) (m, i0, kt')"
  using assms inTypedRun_noValues [of i specs] unfolding ktInv_def
  by (simp add: less_Suc_eq)

lemma ktInv_close:
  assumes inv: "ktInv specs i (m, i0, kt)" and i: "i < length specs"
    and nv: "\<not> hasValues (specs ! i)" and i0: "\<not> i0 < 0"
  shows "ktInv specs (Suc i) (populate m (nat i0) i kt, - 1, kt')"
proof -
  have len: "length m = length specs" and lt: "nat i0 < i"
    and false: "\<forall>k. nat i0 \<le> k \<and> k < length specs \<longrightarrow> \<not> m ! k"
    and before: "\<forall>k < nat i0. m ! k = inTypedRun specs k"
    and kt: "kt = (\<exists>j \<in> {nat i0..<i}. hasType (specs ! j))"
    using inv i0 unfolding ktInv_def by (auto simp: not_less)
  have run: "maximalRun specs (nat i0) i"
    using inv i nv i0 unfolding ktInv_def maximalRun_def by auto
  have r: "inTypedRun specs k = kt" if "nat i0 \<le> k" "k < i" for k
    using inTypedRun_run [OF run that] kt by simp
  have p: "populate m (nat i0) i kt ! k = ((kt \<and> nat i0 \<le> k \<and> k < i) \<or> m ! k)"
    if "k < length specs" for k
    using that len by (simp add: populate_nth)
  have a: "\<forall>k. Suc i \<le> k \<and> k < length specs \<longrightarrow> \<not> populate m (nat i0) i kt ! k"
    using p false lt by auto
  have b: "populate m (nat i0) i kt ! k = inTypedRun specs k" if "k < Suc i" for k
  proof (cases "k < nat i0")
    case True
    then show ?thesis using p [of k] before i lt by auto
  next
    case False
    show ?thesis
    proof (cases "k = i")
      case True
      then show ?thesis
        using p [of k] false i lt inTypedRun_noValues [OF i nv] by auto
    next
      case ne: False
      then have "k < i" using that by simp
      then show ?thesis
        using p [of k] false i False r [of k] by auto
    qed
  qed
  show ?thesis
    unfolding ktInv_def using len i nv a b by simp
qed


lemma keepTypeLoop_inv:
  assumes "\<forall>s \<in> set rest. isValueSpec s" and "specs = pre @ rest"
    and "ktInv specs (length pre) st"
  shows "\<exists>st'. keepTypeLoop rest (length pre) st = Inr st' \<and> ktInv specs (length specs) st'"
  using assms
proof (induction rest arbitrary: pre st)
  case Nil
  then show ?case by simp
next
  case (Cons s rest)
  obtain m i0 kt where st: "st = (m, i0, kt)" by (cases st) auto
  obtain doc names ty vals cmt where s: "s = ValueSpec doc names ty vals cmt"
    using Cons.prems(1) by (cases s) (auto simp: isValueSpec_def)
  let ?i = "length pre"
  have i: "?i < length specs" and si: "specs ! ?i = s"
    using Cons.prems(2) by simp_all
  have hv: "hasValues (specs ! ?i) = (vals \<noteq> None)"
    and ht: "hasType (specs ! ?i) = (ty \<noteq> None)"
    using s si by (simp_all add: hasValues_def hasType_def)
  define st2 where "st2 =
     (let st1 =
            (if vals \<noteq> None then
               (if i0 < 0 then (m, int ?i, False) else (m, i0, kt))
             else
               (if i0 \<ge> 0 then (populate m (nat i0) ?i kt, - 1, kt)
                else (m, i0, kt)))
      in (if ty \<noteq> None then (fst st1, fst (snd st1), True) else st1))"
  have inv: "ktInv specs (Suc ?i) st2"
  proof (cases "vals \<noteq> None")
    case True
    show ?thesis
    proof (cases "i0 < 0")
      case neg: True
      have "st2 = (m, int ?i, hasType (specs ! ?i))"
        using True neg ht by (auto simp: st2_def Let_def)
      then show ?thesis
        using ktInv_start [of specs ?i m i0 kt] Cons.prems(3) st i hv True neg by simp
    next
      case False
      have "st2 = (m, i0, kt \<or> hasType (specs ! ?i))"
        using True False ht by (auto simp: st2_def Let_def)
      then show ?thesis
        using ktInv_continue [of specs ?i m i0 kt] Cons.prems(3) st i hv True False by simp
    qed
  next
    case nv: False
    show ?thesis
    proof (cases "i0 < 0")
      case True
      have "st2 = (m, i0, kt \<or> ty \<noteq> None)"
        using nv True by (auto simp: st2_def Let_def)
      then show ?thesis
        using ktInv_outside [of specs ?i m i0 kt] Cons.prems(3) st i hv nv True by simp
    next
      case False
      have "st2 = (populate m (nat i0) ?i kt, - 1, kt \<or> ty \<noteq> None)"
        using nv False by (auto simp: st2_def Let_def)
      then show ?thesis
        using ktInv_close [of specs ?i m i0 kt] Cons.prems(3) st i hv nv False by simp
    qed
  qed
  have step: "keepTypeLoop (s # rest) ?i st = keepTypeLoop rest (Suc ?i) st2"
    by (simp add: s st st2_def Let_def)
  have "\<exists>st'. keepTypeLoop rest (length (pre @ [s])) st2 = Inr st'
          \<and> ktInv specs (length specs) st'"
    using Cons.IH [of "pre @ [s]" st2] Cons.prems(1,2) inv by simp
  then show ?case using step by simp
qed

lemma ktInv_init: "ktInv specs 0 (replicate (length specs) False, - 1, False)"
  by (simp add: ktInv_def)

text \<open>
  C9. For a slice of value specs, \<^verbatim>\<open>keepTypeColumn\<close> returns a slice of the same length
  whose entry \<open>i\<close> is true exactly when spec \<open>i\<close> lies in a maximal contiguous run of
  specs with initialization values in which some spec carries a type; the entry of a spec
  without values is false.
\<close>

theorem C9_keepTypeColumn:
  "\<forall>s \<in> set specs. isValueSpec s \<Longrightarrow>
     \<exists>m. keepTypeColumn specs = Inr m \<and> length m = length specs
        \<and> (\<forall>i < length specs. m ! i = inTypedRun specs i)
        \<and> (\<forall>i < length specs. \<not> hasValues (specs ! i) \<longrightarrow> \<not> m ! i)"
proof -
  assume vs: "\<forall>s \<in> set specs. isValueSpec s"
  obtain m i0 kt where l: "keepTypeLoop specs 0 (replicate (length specs) False, - 1, False)
      = Inr (m, i0, kt)" and inv: "ktInv specs (length specs) (m, i0, kt)"
    using keepTypeLoop_inv [of specs specs "[]"] vs ktInv_init [of specs]
    by (metis append_Nil list.size(3) prod_cases3)
  let ?n = "length specs"
  let ?r = "if i0 \<ge> 0 then populate m (nat i0) ?n kt else m"
  have res: "keepTypeColumn specs = Inr ?r"
    by (simp add: keepTypeColumn_def l)
  have len: "length m = ?n" using inv by (simp add: ktInv_def)
  have main: "?r ! i = inTypedRun specs i" if i: "i < ?n" for i
  proof (cases "i0 < 0")
    case True
    then show ?thesis using inv i by (simp add: ktInv_def)
  next
    case False
    have run: "maximalRun specs (nat i0) ?n"
      using inv False unfolding ktInv_def maximalRun_def by auto
    have kt: "kt = (\<exists>j \<in> {nat i0..<?n}. hasType (specs ! j))"
      and before: "\<forall>k < nat i0. m ! k = inTypedRun specs k"
      and false: "\<forall>k \<in> {nat i0..<?n}. \<not> m ! k"
      using inv False unfolding ktInv_def by auto
    show ?thesis
    proof (cases "i < nat i0")
      case True
      then show ?thesis using False before i len by (simp add: populate_nth)
    next
      case ge: False
      then have "inTypedRun specs i = kt"
        using inTypedRun_run [OF run, of i] i kt by simp
      then show ?thesis using False ge false i len by (simp add: populate_nth)
    qed
  qed
  have "\<not> ?r ! i" if "i < ?n" "\<not> hasValues (specs ! i)" for i
    using main [OF that(1)] inTypedRun_noValues [OF that] by simp
  then show ?thesis
    using res len main by (intro exI [of _ ?r]) auto
qed

theorem C9_keepTypeColumn_witness:
  "keepTypeColumn
     [ValueSpec None [] (Some (BadExpr 0 0)) (Some [BadExpr 0 0]) None,
      ValueSpec None [] None (Some [BadExpr 0 0]) None,
      ValueSpec None [] None None None,
      ValueSpec None [] None (Some [BadExpr 0 0]) None]
     = Inr [True, True, False, False]
   \<and> inTypedRun
        [ValueSpec None [] (Some (BadExpr 0 0)) (Some [BadExpr 0 0]) None,
         ValueSpec None [] None (Some [BadExpr 0 0]) None,
         ValueSpec None [] None None None,
         ValueSpec None [] None (Some [BadExpr 0 0]) None] 1"
proof -
  let ?specs = "[ValueSpec None [] (Some (BadExpr 0 0)) (Some [BadExpr 0 0]) None,
      ValueSpec None [] None (Some [BadExpr 0 0]) None,
      ValueSpec None [] None None None,
      ValueSpec None [] None (Some [BadExpr 0 0]) None]"
  have h: "\<forall>s \<in> set ?specs. isValueSpec s"
    by (simp add: isValueSpec_def)
  have e: "keepTypeColumn ?specs = Inr [True, True, False, False]"
    by (simp add: keepTypeColumn_def populate_def Let_def)
  from C9_keepTypeColumn [OF h] e have "[True, True, False, False] ! 1 = inTypedRun ?specs 1"
    by auto
  then show ?thesis using e by simp
qed

section \<open>Errors that abort\<close>

lemma errorExpected_Inl: "errorExpected p ps msg \<noteq> Inr p'"
  by (simp add: errorExpected_def Let_def)

lemma expect_Inr: "(expect p t = Inr (ps, p')) = (tok p = t \<and> ps = pos p \<and> p' = next_tok p)"
  by (auto simp: expect_def Let_def errorExpected_Inl split: sum.splits)

text \<open>
  C2 fails on the code: \<^verbatim>\<open>errorExpected\<close> records nothing and never returns, it panics with
  the formatted message; so does every \<^verbatim>\<open>expect\<close> that meets another token. On the source
  \<^verbatim>\<open>package 42\<close> the parse ends in that panic at the package name.
\<close>

theorem C2_errorExpected_panics:
  "(\<exists>m. errorExpected p ps msg = Inl (PanicString m))
   \<and> parseFile G
        (init demoFile
           [scan 1 PACKAGE ''package'', scan 9 INT_tok ''42'', scan 11 SEMICOLON newline] 12 {})
      = Some (Inl (PanicString
          (''a.igo:1:9 expected '' @ apostrophe @ ''IDENT'' @ apostrophe @ '', found ''
             @ apostrophe @ ''INT'' @ apostrophe @ '' 42'')))"
  by (simp add: run_defs run_prods)

section \<open>Short blocks\<close>

lemma expectSemi_after:
  "ptok p = SEMICOLON \<or> ptok p = COMMENT \<Longrightarrow> \<exists>p'. expectSemi p = Inr p'"
  by (auto simp: expectSemi_def)

text \<open>
  C3, as the code has it. A block in the short form has \<^verbatim>\<open>Small\<close> set and opens at the
  colon. \<^verbatim>\<open>parseBlockStmt\<close> parses one small statement in a new scope, closes the scope and
  expects a semicolon; its block holds that statement and closes at the position of the
  parser's current token when the statement has been parsed. For the empty statement that
  is the position of its semicolon. For \<^verbatim>\<open>return\<close> without results before a semicolon it is
  the position of the token after the semicolon, which \<^verbatim>\<open>parseReturnStmt\<close> has consumed.
  \<^verbatim>\<open>parseBody\<close> parses in the scope it is given; its block is empty when a semicolon follows
  the colon and holds the one small statement otherwise, and closes at the position of the
  current token when the body has been read.
\<close>

theorem C3_short_block:
  "tok p = COLON \<Longrightarrow>
     (\<forall>b p'. parseBlockStmt G p = Inr (b, p') \<longrightarrow>
        (\<exists>s p1 p3. parseSmallStmt G (openScope (next_tok p)) = Inr (s, p1)
           \<and> closeScope p1 = Inr p3 \<and> expectSemi p3 = Inr p'
           \<and> b = BlockStmt (pos p) [s] (pos p1) True))
     \<and> (tok (next_tok p) = SEMICOLON \<longrightarrow>
          (\<exists>p'. parseBlockStmt G p
                  = Inr (BlockStmt (pos p) [EmptyStmt (pos (next_tok p))] (pos (next_tok p)) True,
                         p')))
     \<and> (tok (next_tok p) = RETURN \<and> tok (next_tok (next_tok p)) = SEMICOLON \<longrightarrow>
          (\<exists>p'. parseBlockStmt G p
                  = Inr (BlockStmt (pos p) [ReturnStmt (pos (next_tok p)) []]
                           (pos (next_tok (next_tok (next_tok p)))) True,
                         p')))
     \<and> (\<forall>b p'. parseBody G sc p = Inr (b, p') \<longrightarrow>
          (\<exists>list q.
              (if tok (next_tok p) = SEMICOLON
               then expectSemi ((next_tok p)\<lparr>topScope := sc\<rparr>) = Inr q \<and> list = []
               else \<exists>s. parseSmallStmt G ((next_tok p)\<lparr>topScope := sc\<rparr>) = Inr (s, q)
                        \<and> list = [s])
            \<and> closeScope q = Inr p'
            \<and> b = BlockStmt (pos p) list (pos p') True))"
proof -
  assume c: "tok p = COLON"
  let ?q = "next_tok p"
  let ?o = "openScope ?q"
  have e: "expect p COLON = Inr (pos p, ?q)"
    using c by (simp add: expect_Inr)
  have o: "tok ?o = tok ?q" "pos ?o = pos ?q"
    by (simp_all add: openScope_def NewScope_def)
  have blk: "\<exists>s p1 p3. parseSmallStmt G ?o = Inr (s, p1)
           \<and> closeScope p1 = Inr p3 \<and> expectSemi p3 = Inr p'
           \<and> b = BlockStmt (pos p) [s] (pos p1) True"
    if r: "parseBlockStmt G p = Inr (b, p')" for b p'
  proof -
    from r c obtain s p1 where sm: "parseSmallStmt G ?o = Inr (s, p1)"
      by (auto simp: parseBlockStmt_def e split: sum.splits)
    from r c sm obtain p3 where cl: "closeScope p1 = Inr p3"
      by (auto simp: parseBlockStmt_def e split: sum.splits)
    have ps: "pos p3 = pos p1"
      using cl by (auto simp: closeScope_def split: option.splits)
    have "expectSemi p3 = Inr p' \<and> b = BlockStmt (pos p) [s] (pos p3) True"
      using r c sm cl by (auto simp: parseBlockStmt_def e Let_def split: sum.splits)
    then show ?thesis
      using sm cl ps by auto
  qed
  have empty: "\<exists>p'. parseBlockStmt G p
        = Inr (BlockStmt (pos p) [EmptyStmt (pos ?q)] (pos ?q) True, p')"
    if t: "tok ?q = SEMICOLON"
  proof -
    have s: "parseSmallStmt G ?o = Inr (EmptyStmt (pos ?q), ?o)"
      using t o by (simp add: parseSmallStmt_def)
    have cl: "closeScope ?o = Inr (?o\<lparr>topScope := topScope ?q\<rparr>)"
      by (rule closeScope_openScope) simp_all
    have es: "expectSemi (?o\<lparr>topScope := topScope ?q\<rparr>)
                = Inr (next_tok (?o\<lparr>topScope := topScope ?q\<rparr>))"
      using t o by (simp add: expectSemi_def)
    show ?thesis
      using c by (simp add: parseBlockStmt_def e s cl es o)
  qed
  have ret: "\<exists>p'. parseBlockStmt G p
        = Inr (BlockStmt (pos p) [ReturnStmt (pos ?q) []] (pos (next_tok (next_tok ?q))) True, p')"
    if t: "tok ?q = RETURN" "tok (next_tok ?q) = SEMICOLON"
  proof -
    let ?r = "next_tok ?o"
    let ?p2 = "next_tok ?r"
    have r: "?r = openScope (next_tok ?q)"
      by (rule next_tok_openScope)
    have p2: "?p2 = openScope (next_tok (next_tok ?q))"
      by (simp add: r next_tok_openScope)
    have "tok (openScope (next_tok ?q)) = SEMICOLON"
      using t(2) by (simp add: openScope_def NewScope_def)
    then have tr: "tok ?r = SEMICOLON"
      by (simp only: r)
    have ex: "expect ?o RETURN = Inr (pos ?q, ?r)"
      using t(1) o by (simp add: expect_Inr)
    have rs: "parseReturnStmt G ?o = Inr (ReturnStmt (pos ?q) [], ?p2)"
      using tr o by (simp add: parseReturnStmt_def ex expectSemi_def Let_def)
    have s: "parseSmallStmt G ?o = Inr (ReturnStmt (pos ?q) [], ?p2)"
      using t(1) o rs by (simp add: parseSmallStmt_def)
    have cl: "closeScope ?p2 = Inr (?p2\<lparr>topScope := topScope ?q\<rparr>)"
      by (rule closeScope_openScope) (simp_all add: next_tok_heap next_tok_scoping)
    have "ptok ?p2 = SEMICOLON \<or> ptok ?p2 = COMMENT"
      using ptok_next_tok [of ?r] tr by simp
    then obtain p' where es: "expectSemi (?p2\<lparr>topScope := topScope ?q\<rparr>) = Inr p'"
      using expectSemi_after [of "?p2\<lparr>topScope := topScope ?q\<rparr>"] by auto
    have "pos (openScope (next_tok (next_tok ?q))) = pos (next_tok (next_tok ?q))"
      by (simp add: openScope_def NewScope_def)
    then have ps: "pos ?p2 = pos (next_tok (next_tok ?q))"
      by (simp only: p2)
    show ?thesis
      using c by (simp add: parseBlockStmt_def e s cl es ps)
  qed
  have body: "\<exists>list q.
              (if tok ?q = SEMICOLON
               then expectSemi (?q\<lparr>topScope := sc\<rparr>) = Inr q \<and> list = []
               else \<exists>s. parseSmallStmt G (?q\<lparr>topScope := sc\<rparr>) = Inr (s, q) \<and> list = [s])
            \<and> closeScope q = Inr p'
            \<and> b = BlockStmt (pos p) list (pos p') True"
    if "parseBody G sc p = Inr (b, p')" for b p'
    using that c
    by (auto simp: parseBody_def e Let_def split: sum.splits if_splits)
  show ?thesis
    using blk empty ret body by blast
qed

text \<open>
  The block \<^verbatim>\<open>: ;\<close> closes at its semicolon, at 13; the block \<^verbatim>\<open>: return\<close>, with the
  semicolon at 13 and the next token at 101, closes at 101.
\<close>

theorem C3_short_block_witness:
  "tok (init demoFile
          [scan 5 COLON '':'', scan 13 SEMICOLON newline, scan 101 IDENT ''x''] 102 {}) = COLON
   \<and> tok (next_tok (init demoFile
          [scan 5 COLON '':'', scan 13 SEMICOLON newline, scan 101 IDENT ''x''] 102 {}))
       = SEMICOLON
   \<and> (case parseBlockStmt noGrammar
              (init demoFile
                 [scan 5 COLON '':'', scan 13 SEMICOLON newline, scan 101 IDENT ''x''] 102 {}) of
         Inl e \<Rightarrow> False
       | Inr (b, p') \<Rightarrow> b = BlockStmt 5 [EmptyStmt 13] 13 True)
   \<and> tok (next_tok (next_tok (init demoFile
          [scan 5 COLON '':'', scan 7 RETURN ''return'', scan 13 SEMICOLON newline,
           scan 101 IDENT ''x''] 102 {}))) = SEMICOLON
   \<and> (case parseBlockStmt noGrammar
              (init demoFile
                 [scan 5 COLON '':'', scan 7 RETURN ''return'', scan 13 SEMICOLON newline,
                  scan 101 IDENT ''x''] 102 {}) of
         Inl e \<Rightarrow> False
       | Inr (b, p') \<Rightarrow> b = BlockStmt 5 [ReturnStmt 7 []] 101 True)"
proof -
  let ?p = "init demoFile
     [scan 5 COLON '':'', scan 13 SEMICOLON newline, scan 101 IDENT ''x''] 102 {}"
  let ?r = "init demoFile
     [scan 5 COLON '':'', scan 7 RETURN ''return'', scan 13 SEMICOLON newline,
      scan 101 IDENT ''x''] 102 {}"
  have h: "tok ?p = COLON" "tok (next_tok ?p) = SEMICOLON" "pos ?p = 5" "pos (next_tok ?p) = 13"
    by (simp_all add: run_defs)
  have k: "tok ?r = COLON" "tok (next_tok ?r) = RETURN" "tok (next_tok (next_tok ?r)) = SEMICOLON"
    "pos ?r = 5" "pos (next_tok ?r) = 7" "pos (next_tok (next_tok (next_tok ?r))) = 101"
    by (simp_all add: run_defs)
  from C3_short_block [OF h(1), of noGrammar] h
  have a: "\<exists>p'. parseBlockStmt noGrammar ?p = Inr (BlockStmt 5 [EmptyStmt 13] 13 True, p')"
    by simp
  from C3_short_block [OF k(1), of noGrammar] k
  have b: "\<exists>p'. parseBlockStmt noGrammar ?r = Inr (BlockStmt 5 [ReturnStmt 7 []] 101 True, p')"
    by simp
  show ?thesis
    using h k a b by auto
qed

text \<open>
  C3 as stated fails for a statement that consumes its own semicolon: in \<^verbatim>\<open>: return\<close>
  with the semicolon at 13 and the next token at 101, the block closes at 101.
\<close>

theorem C3_counterexample:
  "(case parseBlockStmt noGrammar
           (init demoFile
              [scan 5 COLON '':'', scan 7 RETURN ''return'', scan 13 SEMICOLON newline,
               scan 101 IDENT ''x''] 102 {}) of
      Inl e \<Rightarrow> False
    | Inr (b, p') \<Rightarrow> b = BlockStmt 5 [ReturnStmt 7 []] 101 True \<and> BlockClosing b \<noteq> 13)"
  by (simp add: run_defs run_prods)

section \<open>Reading back a written file set\<close>

text \<open>
  C8. \<^verbatim>\<open>Write\<close> has written to the medium \<open>w\<close> and left it as \<open>w1\<close>. When \<^verbatim>\<open>decode\<close> on
  \<open>w1\<close> gives back the value that \<^verbatim>\<open>encode\<close> was given on \<open>w\<close>, reading from \<open>w1\<close> yields a
  file set with the base of the written one and, file by file, the same name, base, size,
  lines and infos; its files belong to the reading file set, and its cached last file is
  \<^verbatim>\<open>nil\<close>.  Nothing is asked of the codec on another medium.
\<close>

theorem C8_read_write:
  assumes "Write fs encode w = (None, w1)"
    and "\<forall>ss. encode ss w = (None, w1) \<longrightarrow> (\<exists>w2. decode w1 = (None, ss, w2))"
  shows "\<exists>s' w2. Read self s decode w1 = (None, s', w2)
           \<and> fs_base s' = fs_base fs
           \<and> map (\<lambda>f. (f_name f, f_base f, f_size f, f_lines f, f_infos f)) (fs_files s')
               = map (\<lambda>f. (f_name f, f_base f, f_size f, f_lines f, f_infos f)) (fs_files fs)
           \<and> (\<forall>f \<in> set (fs_files s'). f_set f = self)
           \<and> fs_last s' = None"
proof -
  let ?ss = "\<lparr>ssBase = fs_base fs,
              ssFiles = map (\<lambda>f. \<lparr>sName = f_name f, sBase = f_base f, sSize = f_size f,
                                   sLines = f_lines f, sInfos = f_infos f\<rparr>) (fs_files fs)\<rparr>"
  have "encode ?ss w = (None, w1)"
    using assms(1) by (simp add: Write_def)
  then obtain w2 where "decode w1 = (None, ?ss, w2)"
    using assms(2) by blast
  then show ?thesis
    by (simp add: Read_def comp_def)
qed

text \<open>A file set of one file, written to the empty queue and read back into another.\<close>

theorem C8_read_write_witness:
  "(case Read 7 \<lparr>fs_base = 1, fs_files = [], fs_last = None\<rparr> fifoDecode
           (snd (Write
                   \<lparr>fs_base = 112,
                    fs_files = [\<lparr>f_set = 3, f_name = ''a.igo'', f_base = 1, f_size = 110,
                                 f_lines = [0, 100], f_infos = []\<rparr>],
                    fs_last = Some \<lparr>f_set = 3, f_name = ''a.igo'', f_base = 1, f_size = 110,
                                     f_lines = [0, 100], f_infos = []\<rparr>\<rparr>
                   fifoEncode [])) of
      (err, s', w') \<Rightarrow>
        err = None \<and> fs_base s' = 112 \<and> fs_last s' = None
        \<and> fs_files s' = [\<lparr>f_set = 7, f_name = ''a.igo'', f_base = 1, f_size = 110,
                           f_lines = [0, 100], f_infos = []\<rparr>])"
proof -
  let ?fs = "\<lparr>fs_base = 112,
              fs_files = [\<lparr>f_set = 3, f_name = ''a.igo'', f_base = 1, f_size = 110,
                           f_lines = [0, 100], f_infos = []\<rparr>],
              fs_last = Some \<lparr>f_set = 3, f_name = ''a.igo'', f_base = 1, f_size = 110,
                               f_lines = [0, 100], f_infos = []\<rparr>\<rparr>"
  let ?w1 = "snd (Write ?fs fifoEncode [])"
  have w: "Write ?fs fifoEncode [] = (None, ?w1)"
    by (simp add: Write_def fifoEncode_def)
  have c: "\<forall>ss. fifoEncode ss [] = (None, ?w1) \<longrightarrow> (\<exists>w2. fifoDecode ?w1 = (None, ss, w2))"
    by (auto simp: Write_def fifoEncode_def fifoDecode_def)
  from C8_read_write [of ?fs fifoEncode "[]" ?w1 fifoDecode 7
                         "\<lparr>fs_base = 1, fs_files = [], fs_last = None\<rparr>"] w c
  show ?thesis
    by (simp add: Read_def Write_def fifoEncode_def fifoDecode_def)
qed

section \<open>Identifiers left unresolved at the end of a file\<close>

text \<open>
  The loop at the end of \<^verbatim>\<open>parseFile\<close> looks every identifier of \<^verbatim>\<open>self.unresolved\<close> up in
  the package scope, writes the result into the identifier, and compacts the ones not found to
  the front of the slice. It asserts that each identifier is marked unresolved when its turn
  comes; so when the loop returns, they all were when it started.
\<close>

lemma scopeAt_setObj: "scopeAt (setObj x v h) r = scopeAt h r"
  by (simp add: scopeAt_def setObj_def split: option.splits)

lemma resolveGlobals_Inr:
  assumes "n - k = d" and "k \<le> n" and "i \<le> k"
    and "length (unresolved p) = n" and "length us = n"
    and "\<forall>j. k \<le> j \<and> j < n \<longrightarrow> unresolved p ! j = us ! j"
    and "scopeAt (heap p) (pkgScope p) = Some s"
    and "resolveGlobals k i n p = Inr (i', p')"
  shows "i' = i + length (filter (\<lambda>x. Lookup s (Name x) = ObjNil) (drop k us))
         \<and> take i' (unresolved p')
             = take i (unresolved p) @ filter (\<lambda>x. Lookup s (Name x) = ObjNil) (drop k us)
         \<and> (\<forall>x \<in> set (drop k us). getObj (heap p) x = ObjUnresolved)
         \<and> (\<forall>x \<in> set (drop k us).
                (\<forall>y \<in> set (drop k us). ObjCell y = ObjCell x \<longrightarrow> Name y = Name x) \<longrightarrow>
                getObj (heap p') x = Lookup s (Name x))
         \<and> (\<forall>c. c \<notin> ObjCell ` set (drop k us) \<longrightarrow> cells (heap p') ! c = cells (heap p) ! c)
         \<and> length (cells (heap p')) = length (cells (heap p))"
  using assms
proof (induction d arbitrary: k i p)
  case 0
  then have "k = n" by simp
  then show ?case
    using 0 by (subst (asm) resolveGlobals.simps) auto
next
  case (Suc d)
  let ?keep = "\<lambda>x. Lookup s (Name x) = ObjNil"
  have kn: "k < n" using Suc.prems(1) by simp
  let ?x = "us ! k"
  let ?T = "drop (Suc k) us"
  have xk: "unresolved p ! k = ?x" using Suc.prems(6) kn by simp
  have dk: "drop k us = ?x # ?T"
    using kn Suc.prems(5) by (simp add: Cons_nth_drop_Suc)
  have gx: "getObj (heap p) ?x = ObjUnresolved"
    using Suc.prems(8) kn xk
    by (subst (asm) resolveGlobals.simps) (auto simp: assert_def Let_def split: if_splits)
  then have cx: "ObjCell ?x < length (cells (heap p))"
    by (auto simp: getObj_def split: if_splits)
  let ?obj = "Lookup s (Name ?x)"
  let ?p1 = "p\<lparr>heap := setObj ?x ?obj (heap p)\<rparr>"
  let ?p2 = "?p1\<lparr>unresolved := (unresolved ?p1)[i := ?x]\<rparr>"
  let ?q = "if ?obj = ObjNil then ?p2 else ?p1"
  let ?i1 = "if ?obj = ObjNil then Suc i else i"
  have step: "resolveGlobals k i n p = resolveGlobals (Suc k) ?i1 n ?q"
    using kn xk gx Suc.prems(7)
    by (subst resolveGlobals.simps) (simp add: assert_def Let_def)
  have hq: "heap ?q = setObj ?x ?obj (heap p)"
    by simp
  have ih: "i' = ?i1 + length (filter ?keep ?T)
         \<and> take i' (unresolved p') = take ?i1 (unresolved ?q) @ filter ?keep ?T
         \<and> (\<forall>x \<in> set ?T. getObj (heap ?q) x = ObjUnresolved)
         \<and> (\<forall>x \<in> set ?T.
                (\<forall>y \<in> set ?T. ObjCell y = ObjCell x \<longrightarrow> Name y = Name x) \<longrightarrow>
                getObj (heap p') x = Lookup s (Name x))
         \<and> (\<forall>c. c \<notin> ObjCell ` set ?T \<longrightarrow> cells (heap p') ! c = cells (heap ?q) ! c)
         \<and> length (cells (heap p')) = length (cells (heap ?q))"
  proof (rule Suc.IH)
    show "n - Suc k = d" using Suc.prems(1) by simp
    show "Suc k \<le> n" using kn by simp
    show "?i1 \<le> Suc k" using Suc.prems(3) by simp
    show "length (unresolved ?q) = n" using Suc.prems(4) by simp
    show "length us = n" by fact
    show "\<forall>j. Suc k \<le> j \<and> j < n \<longrightarrow> unresolved ?q ! j = us ! j"
      using Suc.prems(3,6) by auto
    show "scopeAt (heap ?q) (pkgScope ?q) = Some s"
      using Suc.prems(7) by (simp add: scopeAt_setObj)
    show "resolveGlobals (Suc k) ?i1 n ?q = Inr (i', p')"
      using Suc.prems(8) step by simp
  qed
  then have i': "i' = ?i1 + length (filter ?keep ?T)"
    and t: "take i' (unresolved p') = take ?i1 (unresolved ?q) @ filter ?keep ?T"
    and m: "\<forall>x \<in> set ?T. getObj (heap ?q) x = ObjUnresolved"
    and fn: "\<forall>x \<in> set ?T.
                (\<forall>y \<in> set ?T. ObjCell y = ObjCell x \<longrightarrow> Name y = Name x) \<longrightarrow>
                getObj (heap p') x = Lookup s (Name x)"
    and f: "\<forall>c. c \<notin> ObjCell ` set ?T \<longrightarrow> cells (heap p') ! c = cells (heap ?q) ! c"
    and l: "length (cells (heap p')) = length (cells (heap ?q))"
    by blast+
  note m = m [unfolded hq] and f = f [unfolded hq] and l = l [unfolded hq]
  have len: "length (cells (heap p')) = length (cells (heap p))"
    using l by (simp add: setObj_def)
  have i_lt: "i < n" using Suc.prems(3) kn by simp
  have tk: "take ?i1 (unresolved ?q) @ filter ?keep ?T
              = take i (unresolved p) @ filter ?keep (drop k us)"
    using i_lt Suc.prems(4) by (simp add: dk take_Suc_conv_app_nth)
  have cnt: "?i1 + length (filter ?keep ?T) = i + length (filter ?keep (drop k us))"
    by (simp add: dk)
  have cell: "getObj h y = getObj h z" if "ObjCell y = ObjCell z" for h y z
    using that by (simp add: getObj_def)
  have marked: "getObj (heap p) y = ObjUnresolved" if y: "y \<in> set ?T" for y
  proof (cases "ObjCell y = ObjCell ?x")
    case True
    then show ?thesis using cell [of y ?x "heap p"] gx by simp
  next
    case False
    have "getObj (setObj ?x ?obj (heap p)) y = ObjUnresolved" using m y by blast
    then show ?thesis using False by (auto simp: getObj_def setObj_def split: if_splits)
  qed
  have final: "getObj (heap p') z = Lookup s (Name z)"
    if z: "z \<in> set (drop k us)"
      and nm: "\<forall>y \<in> set (drop k us). ObjCell y = ObjCell z \<longrightarrow> Name y = Name z" for z
  proof (cases "\<exists>y \<in> set ?T. ObjCell y = ObjCell z")
    case True
    then obtain y where y: "y \<in> set ?T" "ObjCell y = ObjCell z" by blast
    then have ny: "Name y = Name z"
      using nm dk by simp
    have "\<forall>w \<in> set ?T. ObjCell w = ObjCell y \<longrightarrow> Name w = Name y"
      using nm y ny dk by simp
    then have "getObj (heap p') y = Lookup s (Name y)"
      using fn y(1) by blast
    then show ?thesis
      using cell [of y z "heap p'"] y(2) ny by simp
  next
    case False
    then have "z \<notin> set ?T" by blast
    then have zx: "z = ?x" using z dk by simp
    have "ObjCell ?x \<notin> ObjCell ` set ?T"
      using False zx by auto
    then have "cells (heap p') ! ObjCell ?x = cells (setObj ?x ?obj (heap p)) ! ObjCell ?x"
      using f by blast
    then show ?thesis
      using cx len zx by (simp add: getObj_def setObj_def)
  qed
  have frame: "cells (heap p') ! c = cells (heap p) ! c"
    if "c \<notin> ObjCell ` set (drop k us)" for c
  proof -
    have "c \<noteq> ObjCell ?x" "c \<notin> ObjCell ` set ?T"
      using that dk by auto
    then show ?thesis using f by (simp add: setObj_def)
  qed
  have mk: "\<forall>y \<in> set (drop k us). getObj (heap p) y = ObjUnresolved"
    using gx marked dk by simp
  show ?case
  proof (intro conjI)
    show "i' = i + length (filter ?keep (drop k us))"
      using i' cnt by simp
    show "take i' (unresolved p') = take i (unresolved p) @ filter ?keep (drop k us)"
      using t tk by simp
    show "\<forall>x \<in> set (drop k us). getObj (heap p) x = ObjUnresolved"
      by (rule mk)
    show "\<forall>x \<in> set (drop k us).
            (\<forall>y \<in> set (drop k us). ObjCell y = ObjCell x \<longrightarrow> Name y = Name x) \<longrightarrow>
            getObj (heap p') x = Lookup s (Name x)"
      using final by blast
    show "\<forall>c. c \<notin> ObjCell ` set (drop k us) \<longrightarrow> cells (heap p') ! c = cells (heap p) ! c"
      using frame by blast
    show "length (cells (heap p')) = length (cells (heap p))"
      by (rule len)
  qed
qed

lemma fileEnd_Inr:
  assumes "fileEnd doc ps ident decls q = Inr (r, p')"
  shows "\<exists>f. r = Some f
           \<and> (scopeAt (heap q) (pkgScope q) = None \<longrightarrow> unresolved q = [] \<and> Unresolved f = [])
           \<and> (\<forall>s. scopeAt (heap q) (pkgScope q) = Some s \<longrightarrow>
                  Unresolved f = filter (\<lambda>x. Lookup s (Name x) = ObjNil) (unresolved q)
                  \<and> (\<forall>x \<in> set (unresolved q). getObj (heap q) x = ObjUnresolved)
                  \<and> (\<forall>x \<in> set (unresolved q).
                        (\<forall>y \<in> set (unresolved q). ObjCell y = ObjCell x \<longrightarrow> Name y = Name x)
                        \<longrightarrow> getObj (heap p') x = Lookup s (Name x)))"
proof -
  let ?us = "unresolved q"
  let ?n = "length ?us"
  from assms obtain p1 where c: "closeScope q = Inr p1"
    by (auto simp: fileEnd_def split: sum.splits)
  then have p1: "heap p1 = heap q" "unresolved p1 = ?us" "pkgScope p1 = pkgScope q"
    by (auto simp: closeScope_def split: option.splits)
  from assms c obtain i p2 where run: "resolveGlobals 0 0 ?n p1 = Inr (i, p2)"
    and res: "r = Some \<lparr>FileDoc = doc, Package = ps, PkgName = ident, Decls = decls,
                         FileScope = pkgScope p2, Imports = importSpecs p2,
                         Unresolved = take i (unresolved p2), Comments = comments p2\<rparr>"
    and p': "p' = p2"
    by (auto simp: fileEnd_def p1 split: sum.splits)
  have none: "unresolved q = [] \<and> i = 0" if "scopeAt (heap q) (pkgScope q) = None"
  proof -
    have "\<not> 0 < ?n"
      using run that p1
      by (subst (asm) resolveGlobals.simps) (auto simp: Let_def split: sum.splits if_splits)
    then have "?us = []" by simp
    then show ?thesis
      using run p1 by (subst (asm) resolveGlobals.simps) auto
  qed
  have some: "take i (unresolved p2) = filter (\<lambda>x. Lookup s (Name x) = ObjNil) ?us
              \<and> (\<forall>x \<in> set ?us. getObj (heap q) x = ObjUnresolved)
              \<and> (\<forall>x \<in> set ?us.
                    (\<forall>y \<in> set ?us. ObjCell y = ObjCell x \<longrightarrow> Name y = Name x)
                    \<longrightarrow> getObj (heap p2) x = Lookup s (Name x))"
    if s: "scopeAt (heap q) (pkgScope q) = Some s" for s
  proof -
    have "i = 0 + length (filter (\<lambda>x. Lookup s (Name x) = ObjNil) (drop 0 ?us))
         \<and> take i (unresolved p2)
             = take 0 (unresolved p1) @ filter (\<lambda>x. Lookup s (Name x) = ObjNil) (drop 0 ?us)
         \<and> (\<forall>x \<in> set (drop 0 ?us). getObj (heap p1) x = ObjUnresolved)
         \<and> (\<forall>x \<in> set (drop 0 ?us).
                (\<forall>y \<in> set (drop 0 ?us). ObjCell y = ObjCell x \<longrightarrow> Name y = Name x) \<longrightarrow>
                getObj (heap p2) x = Lookup s (Name x))
         \<and> (\<forall>c. c \<notin> ObjCell ` set (drop 0 ?us) \<longrightarrow> cells (heap p2) ! c = cells (heap p1) ! c)
         \<and> length (cells (heap p2)) = length (cells (heap p1))"
      by (rule resolveGlobals_Inr [where d = ?n and n = ?n])
         (use run s p1 in simp_all)
    then show ?thesis
      unfolding drop_0 take_0 append_Nil p1 by blast
  qed
  let ?f = "\<lparr>FileDoc = doc, Package = ps, PkgName = ident, Decls = decls,
             FileScope = pkgScope p2, Imports = importSpecs p2,
             Unresolved = take i (unresolved p2), Comments = comments p2\<rparr>"
  have u: "Unresolved ?f = take i (unresolved p2)"
    by simp
  show ?thesis
  proof (intro exI [of _ ?f] conjI allI impI)
    show "r = Some ?f" by (rule res)
    show "unresolved q = []" if "scopeAt (heap q) (pkgScope q) = None"
      using none [OF that] by simp
    show "Unresolved ?f = []" if "scopeAt (heap q) (pkgScope q) = None"
      using none [OF that] by simp
    show "Unresolved ?f = filter (\<lambda>x. Lookup s (Name x) = ObjNil) (unresolved q)"
      if "scopeAt (heap q) (pkgScope q) = Some s" for s
      by (simp add: conjunct1 [OF some [OF that]])
    show "\<forall>x \<in> set (unresolved q). getObj (heap q) x = ObjUnresolved"
      if "scopeAt (heap q) (pkgScope q) = Some s" for s
      using some [OF that] by blast
    show "\<forall>x \<in> set (unresolved q).
            (\<forall>y \<in> set (unresolved q). ObjCell y = ObjCell x \<longrightarrow> Name y = Name x)
            \<longrightarrow> getObj (heap p') x = Lookup s (Name x)"
      if "scopeAt (heap q) (pkgScope q) = Some s" for s
      using some [OF that] unfolding p' by blast
  qed
qed

text \<open>
  Claim C6. When \<^verbatim>\<open>parseFile\<close> returns a file, it has read the package clause and the
  declarations, which leave the parser in a state \<open>q\<close>, and has gone through the end of the
  file from there. Let \<open>s\<close> be the package scope in \<open>q\<close>. The \<^verbatim>\<open>Unresolved\<close> list of the file is
  exactly the identifiers collected in \<open>q\<close> whose names \<open>s\<close> does not have, in their order.
  Every collected identifier was marked unresolved in \<open>q\<close>. In the end the object of a
  collected identifier is what \<open>s\<close> holds under its name, \<^verbatim>\<open>nil\<close> when it holds nothing; this
  is said of an identifier that is one node, that is, whose \<^verbatim>\<open>Obj\<close> cell no collected
  identifier of another name shares.
\<close>

theorem C6_unresolved:
  assumes "parseFile G p = Some (Inr (Some f, p'))"
  shows "\<exists>ident p2 p3 p4 decls q.
           parseIdent (next_tok p) = Inr (ident, p2)
           \<and> (if Name ident = ''_'' then error p2 (pos p2) ''invalid package name _''
               else Inr p2) = Inr p3
           \<and> expectSemi p3 = Inr p4
           \<and> fileDecls G ((openScope p4)\<lparr>pkgScope := topScope (openScope p4)\<rparr>)
               = Some (Inr (decls, q))
           \<and> fileEnd (leadComment p) (pos p) ident decls q = Inr (Some f, p')
           \<and> (scopeAt (heap q) (pkgScope q) = None \<longrightarrow> unresolved q = [] \<and> Unresolved f = [])
           \<and> (\<forall>s. scopeAt (heap q) (pkgScope q) = Some s \<longrightarrow>
                  Unresolved f = filter (\<lambda>x. Lookup s (Name x) = ObjNil) (unresolved q)
                  \<and> (\<forall>x \<in> set (unresolved q). getObj (heap q) x = ObjUnresolved)
                  \<and> (\<forall>x \<in> set (unresolved q).
                        (\<forall>y \<in> set (unresolved q). ObjCell y = ObjCell x \<longrightarrow> Name y = Name x)
                        \<longrightarrow> getObj (heap p') x = Lookup s (Name x)))"
proof -
  from assms have e0: "errors p = []"
    by (auto simp: parseFile_def split: if_splits)
  from assms e0 have e1: "expect p PACKAGE = Inr (pos p, next_tok p)"
    by (auto simp: parseFile_def Let_def expect_Inr split: sum.splits)
  from assms obtain ident p2 where i: "parseIdent (next_tok p) = Inr (ident, p2)"
    by (simp only: parseFile_def Let_def e0 e1 sum.case prod.case if_False simp_thms)
       (auto split: sum.splits)
  let ?c = "if Name ident = ''_'' then error p2 (pos p2) ''invalid package name _'' else Inr p2"
  from assms obtain p3 where n: "?c = Inr p3"
    by (simp only: parseFile_def Let_def e0 e1 i sum.case prod.case if_False simp_thms)
       (auto split: sum.splits)
  from assms obtain p4 where s: "expectSemi p3 = Inr p4"
    by (simp only: parseFile_def Let_def e0 e1 i n sum.case prod.case if_False simp_thms)
       (auto split: sum.splits)
  let ?p6 = "(openScope p4)\<lparr>pkgScope := topScope (openScope p4)\<rparr>"
  from assms have rest: "(if errors p4 \<noteq> [] then Some (Inr (None, p4))
       else (case fileDecls G ?p6 of
               None \<Rightarrow> None
             | Some (Inl e) \<Rightarrow> Some (Inl e)
             | Some (Inr (decls, p7)) \<Rightarrow>
                 Some (fileEnd (leadComment p) (pos p) ident decls p7)))
       = Some (Inr (Some f, p'))"
    by (simp only: parseFile_def Let_def e0 e1 i n s sum.case prod.case if_False simp_thms)
  then obtain decls q where d: "fileDecls G ?p6 = Some (Inr (decls, q))"
    and fe: "fileEnd (leadComment p) (pos p) ident decls q = Inr (Some f, p')"
    by (auto split: if_splits option.splits sum.splits)
  from fileEnd_Inr [OF fe] obtain f' where ff: "Some f = Some f'"
    and k1: "scopeAt (heap q) (pkgScope q) = None \<longrightarrow> unresolved q = [] \<and> Unresolved f' = []"
    and k2: "\<forall>s. scopeAt (heap q) (pkgScope q) = Some s \<longrightarrow>
                  Unresolved f' = filter (\<lambda>x. Lookup s (Name x) = ObjNil) (unresolved q)
                  \<and> (\<forall>x \<in> set (unresolved q). getObj (heap q) x = ObjUnresolved)
                  \<and> (\<forall>x \<in> set (unresolved q).
                        (\<forall>y \<in> set (unresolved q). ObjCell y = ObjCell x \<longrightarrow> Name y = Name x)
                        \<longrightarrow> getObj (heap p') x = Lookup s (Name x))"
    by (elim exE conjE) (rule that; assumption)
  have f'f: "f' = f"
    using ff by simp
  note k = conjI [OF k1 k2, unfolded f'f]
  show ?thesis
    apply (rule exI [of _ ident], rule exI [of _ p2], rule exI [of _ p3], rule exI [of _ p4],
           rule exI [of _ decls], rule exI [of _ q])
    apply (insert i n s d fe k)
    apply (elim conjE)
    apply (intro conjI)
          apply assumption+
    done
qed

text \<open>
  In the file of \<open>demoSource\<close> the receivers \<^verbatim>\<open>T\<close> and \<^verbatim>\<open>U\<close> are collected; the package scope
  declares the function \<^verbatim>\<open>T\<close>, so \<^verbatim>\<open>T\<close> is linked to it and only \<^verbatim>\<open>U\<close> stays in the file's
  list.
\<close>

theorem C6_unresolved_witness:
  "(case parseFile noGrammar (init demoFile demoSource 401 {}) of
      Some (Inr (Some f, p')) \<Rightarrow>
        Unresolved f = [\<lparr>NamePos = 206, Name = ''U'', ObjCell = 4\<rparr>]
        \<and> getObj (heap p') \<lparr>NamePos = 106, Name = ''T'', ObjCell = 1\<rparr> = ObjAt 2
        \<and> getObj (heap p') \<lparr>NamePos = 206, Name = ''U'', ObjCell = 4\<rparr> = ObjNil
        \<and> map ObjKind (objects (heap p')) = [Var, Var, Fun]
    | _ \<Rightarrow> False)"
proof -
  let ?P = "init demoFile demoSource 401 {}"
  let ?T = "\<lparr>NamePos = 106, Name = ''T'', ObjCell = 1\<rparr>"
  let ?U = "\<lparr>NamePos = 206, Name = ''U'', ObjCell = 4\<rparr>"
  let ?s = "\<lparr>Outer = None, Objects = [''T'' \<mapsto> ObjAt 2]\<rparr>"
  obtain f p' where r: "parseFile noGrammar ?P = Some (Inr (Some f, p'))"
    and o: "map ObjKind (objects (heap p')) = [Var, Var, Fun]"
    by (simp add: run_defs run_prods demoSource_def demoDecls_def parseDecls.simps
                  parseImports.simps resolveGlobals.simps numeral_2_eq_2)
  obtain ident p2 p4 decls q where
    i: "parseIdent (next_tok ?P) = Inr (ident, p2)" and n: "Name ident \<noteq> ''_''"
    and e: "expectSemi p2 = Inr p4"
    and d: "fileDecls noGrammar ((openScope p4)\<lparr>pkgScope := topScope (openScope p4)\<rparr>)
              = Some (Inr (decls, q))"
    and u: "unresolved q = [?T, ?U]"
    and s: "scopeAt (heap q) (pkgScope q) = Some ?s"
    by (simp add: run_defs run_prods demoSource_def demoDecls_def parseDecls.simps
                  parseImports.simps numeral_2_eq_2)
  from C6_unresolved [OF r] obtain ident' p2' p3' p4' decls' q' where
    i': "parseIdent (next_tok ?P) = Inr (ident', p2')"
    and n': "(if Name ident' = ''_'' then error p2' (pos p2') ''invalid package name _''
              else Inr p2') = Inr p3'"
    and e': "expectSemi p3' = Inr p4'"
    and d': "fileDecls noGrammar ((openScope p4')\<lparr>pkgScope := topScope (openScope p4')\<rparr>)
              = Some (Inr (decls', q'))"
    and k: "\<forall>s. scopeAt (heap q') (pkgScope q') = Some s \<longrightarrow>
              Unresolved f = filter (\<lambda>x. Lookup s (Name x) = ObjNil) (unresolved q')
              \<and> (\<forall>x \<in> set (unresolved q'). getObj (heap q') x = ObjUnresolved)
              \<and> (\<forall>x \<in> set (unresolved q').
                    (\<forall>y \<in> set (unresolved q'). ObjCell y = ObjCell x \<longrightarrow> Name y = Name x)
                    \<longrightarrow> getObj (heap p') x = Lookup s (Name x))"
    by blast
  have i2: "ident' = ident" "p2' = p2"
    using i i' by simp_all
  have "p3' = p2"
    using n n' i2 by simp
  then have "p4' = p4"
    using e e' by simp
  then have q: "q' = q"
    using d d' by simp
  from k [unfolded q, rule_format, OF s]
  have un: "Unresolved f = filter (\<lambda>x. Lookup ?s (Name x) = ObjNil) [?T, ?U]"
    and fin: "\<forall>x \<in> set [?T, ?U].
                (\<forall>y \<in> set [?T, ?U]. ObjCell y = ObjCell x \<longrightarrow> Name y = Name x)
                \<longrightarrow> getObj (heap p') x = Lookup ?s (Name x)"
    unfolding u by blast+
  have t: "getObj (heap p') ?T = Lookup ?s (Name ?T)"
    by (rule fin [rule_format]) auto
  have v: "getObj (heap p') ?U = Lookup ?s (Name ?U)"
    by (rule fin [rule_format]) auto
  show ?thesis
    using r o un t v by (simp add: Lookup_def)
qed

section \<open>Declaring an identifier\<close>




section \<open>The receiver of a method\<close>

text \<open>What \<^verbatim>\<open>parseIdent\<close> and \<^verbatim>\<open>parseReceiver\<close> do when they return.\<close>

lemma parseIdent_Inr:
  "(parseIdent p = Inr (i, p')) =
     (tok p = IDENT
      \<and> i = \<lparr>NamePos = pos p, Name = lit p, ObjCell = length (cells (heap p))\<rparr>
      \<and> p' = (next_tok p)\<lparr>heap := (heap p)\<lparr>cells := cells (heap p) @ [ObjNil]\<rparr>\<rparr>)"
  by (auto simp: parseIdent_def Let_def newIdent_def expect_def errorExpected_Inl
                 next_tok_heap
           split: sum.splits)

lemma parseReceiver_Inr:
  assumes "parseReceiver ty (Some a) p = Inr (fld, p')"
    and "a < length (scopes (heap p))"
    and "scopes (heap p) ! a = \<lparr>Outer = out, Objects = Map.empty\<rparr>"
    and "\<forall>t. ty = Ident t \<longrightarrow> ObjCell t < length (cells (heap p))
                          \<and> cells (heap p) ! ObjCell t = ObjNil"
  shows "\<exists>self n. fld = Field None [self] ty None None
           \<and> self = \<lparr>NamePos = NoPos, Name = ''self'', ObjCell = length (cells (heap p))\<rparr>
           \<and> n = length (objects (heap p))
           \<and> length (cells (heap p')) = Suc (length (cells (heap p)))
           \<and> cells (heap p') ! length (cells (heap p)) = ObjAt n
           \<and> objects (heap p')
               = objects (heap p) @ [\<lparr>ObjKind = Var, ObjName = ''self'',
                                      ObjDecl = FieldNode fld, ObjData = NoData\<rparr>]
           \<and> scopes (heap p')
               = (scopes (heap p))[a := \<lparr>Outer = out, Objects = [''self'' \<mapsto> ObjAt n]\<rparr>]"
proof -
  let ?self = "\<lparr>NamePos = NoPos, Name = ''self'', ObjCell = length (cells (heap p))\<rparr>"
  let ?fld = "Field None [?self] ty None None"
  let ?n = "length (objects (heap p))"
  let ?h = "(heap p)\<lparr>cells := cells (heap p) @ [ObjAt ?n],
                      objects := objects (heap p) @ [\<lparr>ObjKind = Var, ObjName = ''self'',
                                      ObjDecl = FieldNode ?fld, ObjData = NoData\<rparr>],
                      scopes := (scopes (heap p))
                         [a := \<lparr>Outer = out, Objects = [''self'' \<mapsto> ObjAt ?n]\<rparr>]\<rparr>"
  have d: "declareIdents (FieldNode ?fld) NoData (Some a) Var [?self]
             (p\<lparr>heap := (heap p)\<lparr>cells := cells (heap p) @ [ObjNil]\<rparr>\<rparr>)
           = Inr (p\<lparr>heap := ?h\<rparr>)"
    using assms(2,3)
    by (simp add: declareIdent_def assert_def getObj_def setObj_def scopeAt_def Insert_def
                  NewObj_def Lookup_def Let_def)
  show ?thesis
  proof (cases "\<exists>t. ty = Ident t")
    case True
    then obtain t where t: "ty = Ident t" by blast
    then have c: "ObjCell t < length (cells (heap p))" "cells (heap p) ! ObjCell t = ObjNil"
      using assms(4) by auto
    from assms(1) have r: "\<exists>q. resolve (Ident t) (p\<lparr>heap := ?h\<rparr>) = Inr q \<and> p' = q \<and> fld = ?fld"
      using d t by (auto simp: parseReceiver_def newIdent_def Let_def split: sum.splits)
    then obtain q where q: "resolve (Ident t) (p\<lparr>heap := ?h\<rparr>) = Inr q" "p' = q" "fld = ?fld"
      by blast
    have "heap q = ?h \<or> (\<exists>obj. heap q = setObj t obj ?h)"
      using q(1) by (auto simp: resolve_def tryResolve_def Let_def split: sum.splits if_splits)
    then show ?thesis
      using q c by (auto simp: setObj_def nth_append)
  next
    case False
    then have "p' = p\<lparr>heap := ?h\<rparr> \<and> fld = ?fld"
      using assms(1) d
      by (cases ty) (auto simp: parseReceiver_def newIdent_def Let_def split: sum.splits)
    then show ?thesis
      by simp
  qed
qed

lemma parseFuncName_receiver:
  assumes "parseFuncName (Some a) p = Inr ((recv, nm), p3)"
    and "a < length (scopes (heap p))"
    and "scopes (heap p) ! a = \<lparr>Outer = out, Objects = Map.empty\<rparr>"
    and "tok p = MUL \<or> tok (next_tok p) = PERIOD"
  shows "\<exists>self t n.
           recv = Some (Field None [self]
                          (if tok p = MUL then StarExpr (pos p) (Ident t) else Ident t)
                          None None)
           \<and> NamePos self = NoPos \<and> Name self = ''self''
           \<and> Name t = (if tok p = MUL then lit (next_tok p) else lit p)
           \<and> getObj (heap p3) self = ObjAt n \<and> n < length (objects (heap p3))
           \<and> objects (heap p3) ! n
               = \<lparr>ObjKind = Var, ObjName = ''self'', ObjDecl = FieldNode (the recv),
                  ObjData = NoData\<rparr>
           \<and> scopeAt (heap p3) (Some a)
               = Some \<lparr>Outer = out, Objects = [''self'' \<mapsto> ObjAt n]\<rparr>"
proof (cases "tok p = MUL")
  case True
  let ?q = "next_tok p"
  let ?t = "\<lparr>NamePos = pos ?q, Name = lit ?q, ObjCell = length (cells (heap p))\<rparr>"
  let ?p2 = "(next_tok ?q)\<lparr>heap := (heap p)\<lparr>cells := cells (heap p) @ [ObjNil]\<rparr>\<rparr>"
  from assms(1) True obtain fld q3
    where r: "parseReceiver (StarExpr (pos p) (Ident ?t)) (Some a) ?p2 = Inr (fld, q3)"
      and n: "parseIdent (next_tok q3) = Inr (nm, p3)" and rv: "recv = Some fld"
    by (auto simp: parseFuncName_def expect_Inr parseIdent_Inr next_tok_heap
             split: sum.splits)
  from parseReceiver_Inr [OF r, of out] assms(2,3)
  obtain self n where f: "fld = Field None [self] (StarExpr (pos p) (Ident ?t)) None None"
    and s: "self = \<lparr>NamePos = NoPos, Name = ''self'', ObjCell = Suc (length (cells (heap p)))\<rparr>"
    and k: "n = length (objects (heap p))"
    and l: "length (cells (heap q3)) = Suc (Suc (length (cells (heap p))))"
    and c: "cells (heap q3) ! Suc (length (cells (heap p))) = ObjAt n"
    and o: "objects (heap q3)
              = objects (heap p) @ [\<lparr>ObjKind = Var, ObjName = ''self'',
                                     ObjDecl = FieldNode fld, ObjData = NoData\<rparr>]"
    and sc: "scopes (heap q3)
              = (scopes (heap p))[a := \<lparr>Outer = out, Objects = [''self'' \<mapsto> ObjAt n]\<rparr>]"
    by auto
  have h: "heap p3 = (heap q3)\<lparr>cells := cells (heap q3) @ [ObjNil]\<rparr>"
    using n by (simp add: parseIdent_Inr next_tok_heap)
  show ?thesis
    using True rv f s k l c o sc h assms(2)
    by (auto simp: getObj_def scopeAt_def nth_append)
next
  case False
  let ?t = "\<lparr>NamePos = pos p, Name = lit p, ObjCell = length (cells (heap p))\<rparr>"
  let ?p2 = "(next_tok p)\<lparr>heap := (heap p)\<lparr>cells := cells (heap p) @ [ObjNil]\<rparr>\<rparr>"
  from assms(1,4) False obtain fld q3
    where r: "parseReceiver (Ident ?t) (Some a) ?p2 = Inr (fld, q3)"
      and n: "parseIdent (next_tok q3) = Inr (nm, p3)" and rv: "recv = Some fld"
    by (auto simp: parseFuncName_def parseIdent_Inr split: sum.splits if_splits)
  from parseReceiver_Inr [OF r, of out] assms(2,3)
  obtain self n where f: "fld = Field None [self] (Ident ?t) None None"
    and s: "self = \<lparr>NamePos = NoPos, Name = ''self'', ObjCell = Suc (length (cells (heap p)))\<rparr>"
    and k: "n = length (objects (heap p))"
    and l: "length (cells (heap q3)) = Suc (Suc (length (cells (heap p))))"
    and c: "cells (heap q3) ! Suc (length (cells (heap p))) = ObjAt n"
    and o: "objects (heap q3)
              = objects (heap p) @ [\<lparr>ObjKind = Var, ObjName = ''self'',
                                     ObjDecl = FieldNode fld, ObjData = NoData\<rparr>]"
    and sc: "scopes (heap q3)
              = (scopes (heap p))[a := \<lparr>Outer = out, Objects = [''self'' \<mapsto> ObjAt n]\<rparr>]"
    by auto
  have h: "heap p3 = (heap q3)\<lparr>cells := cells (heap q3) @ [ObjNil]\<rparr>"
    using n by (simp add: parseIdent_Inr next_tok_heap)
  show ?thesis
    using False rv f s k l c o sc h assms(2)
    by (auto simp: getObj_def scopeAt_def nth_append)
qed

text \<open>
  Claim C5.  A function declaration in which \<^verbatim>\<open>func\<close> is followed by \<^verbatim>\<open>*\<close>, or by an
  identifier and a period, has a receiver list of one field; the names of the field are the
  one identifier \<^verbatim>\<open>self\<close>, made by the parser without a position, and its type is the
  identifier \<^verbatim>\<open>t\<close> read from the source, under a star in the first form.  When the name of the
  method has been read, \<^verbatim>\<open>self\<close> points at a variable object whose declaration is the field,
  and the function scope, the one in which the signature and the body are parsed then, holds
  \<^verbatim>\<open>self\<close> and nothing else.
\<close>

theorem C5_receiver:
  assumes "parseFuncDecl G p = Inr (d, p')"
    and "tok (next_tok p) = MUL \<or> tok (next_tok (next_tok p)) = PERIOD"
  shows "\<exists>self t cl fld a p2 p3 p4 p5 n.
           fld = Field None [self]
                   (if tok (next_tok p) = MUL then StarExpr (pos (next_tok p)) (Ident t)
                    else Ident t)
                   None None
           \<and> Recv d = Some (FieldList (pos (next_tok p)) [fld] cl)
           \<and> NamePos self = NoPos \<and> Name self = ''self''
           \<and> Name t = (if tok (next_tok p) = MUL then lit (next_tok (next_tok p))
                        else lit (next_tok p))
           \<and> parseFuncName (Some a) p2 = Inr ((Some fld, FuncName d), p3)
           \<and> parseSignature G (Some a) p3
               = Inr ((Params (FuncTyp d), Results (FuncTyp d)), p4)
           \<and> parseBody G (Some a) p4 = Inr (the (Body d), p5)
           \<and> getObj (heap p3) self = ObjAt n \<and> n < length (objects (heap p3))
           \<and> objects (heap p3) ! n
               = \<lparr>ObjKind = Var, ObjName = ''self'', ObjDecl = FieldNode fld, ObjData = NoData\<rparr>
           \<and> scopeAt (heap p3) (Some a)
               = Some \<lparr>Outer = topScope (next_tok p), Objects = [''self'' \<mapsto> ObjAt n]\<rparr>"
proof -
  let ?p1 = "next_tok p"
  let ?a = "length (scopes (heap p))"
  let ?h = "(heap p)\<lparr>scopes := scopes (heap p) @ [\<lparr>Outer = topScope ?p1, Objects = Map.empty\<rparr>]\<rparr>"
  let ?p2 = "?p1\<lparr>heap := ?h\<rparr>"
  from assms(1) have e1: "expect p FUNC = Inr (pos p, ?p1)"
    by (auto simp: parseFuncDecl_def Let_def expect_Inr split: sum.splits)
  have ns: "NewScope (topScope ?p1) (heap ?p1) = (?a, ?h)"
    by (simp add: NewScope_def next_tok_heap)
  from assms(1) obtain recv ident p3
    where fn: "parseFuncName (Some ?a) ?p2 = Inr ((recv, ident), p3)"
    by (simp only: parseFuncDecl_def Let_def e1 ns sum.case prod.case)
       (auto split: sum.splits)
  from assms(1) obtain params results p4
    where sg: "parseSignature G (Some ?a) p3 = Inr ((params, results), p4)"
    by (simp only: parseFuncDecl_def Let_def e1 ns fn sum.case prod.case)
       (auto split: sum.splits)
  from assms(1) obtain body p5
    where b: "parseBody G (Some ?a) p4 = Inr (body, p5)"
    by (simp only: parseFuncDecl_def Let_def e1 ns fn sg sum.case prod.case)
       (auto split: sum.splits)
  define d0 where "d0 = FuncDecl (leadComment p)
     (case recv of None \<Rightarrow> None
      | Some r \<Rightarrow> Some (FieldList (pos ?p2) [r] (pos p3)))
     ident (FuncType (pos p) params results) (Some body)"
  have fin: "(if recv = None \<and> Name ident \<noteq> ''init''
              then (case declareIdents (DeclNode d0) NoData (pkgScope p5) Fun [ident] p5 of
                      Inl e \<Rightarrow> Inl e
                    | Inr p6 \<Rightarrow> Inr (d0, p6))
              else Inr (d0, p5)) = Inr (d, p')"
    using assms(1)
    by (simp only: parseFuncDecl_def Let_def e1 ns fn sg b d0_def sum.case prod.case)
  have d: "d = d0"
    using fin by (auto split: if_splits sum.splits)
  have tk: "tok ?p2 = MUL \<or> tok (next_tok ?p2) = PERIOD"
    using assms(2) by (simp add: next_tok_heap_upd)
  have "tok ?p2 = tok ?p1" "pos ?p2 = pos ?p1" "lit ?p2 = lit ?p1"
    "lit (next_tok ?p2) = lit (next_tok ?p1)"
    by (simp_all add: next_tok_heap_upd)
  note eqs = this
  from parseFuncName_receiver [OF fn _ _ tk, of "topScope ?p1"]
  obtain self t n where
    rv: "recv = Some (Field None [self]
                        (if tok ?p1 = MUL then StarExpr (pos ?p1) (Ident t) else Ident t)
                        None None)"
    and s: "NamePos self = NoPos" "Name self = ''self''"
    and t: "Name t = (if tok ?p1 = MUL then lit (next_tok ?p1) else lit ?p1)"
    and g: "getObj (heap p3) self = ObjAt n" "n < length (objects (heap p3))"
    and o: "objects (heap p3) ! n
              = \<lparr>ObjKind = Var, ObjName = ''self'', ObjDecl = FieldNode (the recv),
                 ObjData = NoData\<rparr>"
    and sc: "scopeAt (heap p3) (Some ?a)
               = Some \<lparr>Outer = topScope ?p1, Objects = [''self'' \<mapsto> ObjAt n]\<rparr>"
    unfolding eqs by auto
  define fld where "fld = Field None [self]
     (if tok ?p1 = MUL then StarExpr (pos ?p1) (Ident t) else Ident t) None None"
  have rv': "recv = Some fld"
    by (simp add: rv fld_def)
  have r: "Recv d = Some (FieldList (pos ?p1) [fld] (pos p3))"
    and n: "FuncName d = ident" "Params (FuncTyp d) = params" "Results (FuncTyp d) = results"
      "Body d = Some body"
    by (simp_all add: d d0_def rv')
  have "fld = Field None [self]
                (if tok ?p1 = MUL then StarExpr (pos ?p1) (Ident t) else Ident t) None None
        \<and> Recv d = Some (FieldList (pos ?p1) [fld] (pos p3))
        \<and> NamePos self = NoPos \<and> Name self = ''self''
        \<and> Name t = (if tok ?p1 = MUL then lit (next_tok ?p1) else lit ?p1)
        \<and> parseFuncName (Some ?a) ?p2 = Inr ((Some fld, FuncName d), p3)
        \<and> parseSignature G (Some ?a) p3 = Inr ((Params (FuncTyp d), Results (FuncTyp d)), p4)
        \<and> parseBody G (Some ?a) p4 = Inr (the (Body d), p5)
        \<and> getObj (heap p3) self = ObjAt n \<and> n < length (objects (heap p3))
        \<and> objects (heap p3) ! n
            = \<lparr>ObjKind = Var, ObjName = ''self'', ObjDecl = FieldNode fld, ObjData = NoData\<rparr>
        \<and> scopeAt (heap p3) (Some ?a)
            = Some \<lparr>Outer = topScope ?p1, Objects = [''self'' \<mapsto> ObjAt n]\<rparr>"
    using r n s t g o sc fn sg b rv' by (simp add: fld_def)
  then show ?thesis
    by blast
qed

text \<open>The method \<^verbatim>\<open>func T.m(): return\<close>.\<close>

theorem C5_receiver_witness:
  "tok (next_tok (next_tok (atDecls demoMethod 201 {}))) = PERIOD
   \<and> (case parseFuncDecl noGrammar (atDecls demoMethod 201 {}) of
         Inl e \<Rightarrow> False
       | Inr (d, p') \<Rightarrow>
           Recv d = Some (FieldList 106
                            [Field None [\<lparr>NamePos = NoPos, Name = ''self'', ObjCell = 1\<rparr>]
                               (Ident \<lparr>NamePos = 106, Name = ''T'', ObjCell = 0\<rparr>) None None]
                            109)
           \<and> Name (FuncName d) = ''m''
           \<and> (\<exists>self fld. Recv d = Some (FieldList 106 [fld] 109) \<and> Names fld = [self]
                 \<and> Name self = ''self''
                 \<and> map ObjKind (objects (heap p')) = [Var]
                 \<and> map ObjDecl (objects (heap p')) = [FieldNode fld]
                 \<and> getObj (heap p') self = ObjAt 0
                 \<and> scopeAt (heap p') (Some 1)
                     = Some \<lparr>Outer = Some 0, Objects = [''self'' \<mapsto> ObjAt 0]\<rparr>))"
proof -
  let ?p = "atDecls demoMethod 201 {}"
  have h: "tok (next_tok ?p) = MUL \<or> tok (next_tok (next_tok ?p)) = PERIOD"
    by (simp add: run_defs atDecls_def demoMethod_def)
  obtain d p' where r: "parseFuncDecl noGrammar ?p = Inr (d, p')"
    and f: "Recv d = Some (FieldList 106
                            [Field None [\<lparr>NamePos = NoPos, Name = ''self'', ObjCell = 1\<rparr>]
                               (Ident \<lparr>NamePos = 106, Name = ''T'', ObjCell = 0\<rparr>) None None]
                            109)"
      "Name (FuncName d) = ''m''"
      "map ObjKind (objects (heap p')) = [Var]"
      "map ObjDecl (objects (heap p'))
         = [FieldNode (Field None [\<lparr>NamePos = NoPos, Name = ''self'', ObjCell = 1\<rparr>]
                               (Ident \<lparr>NamePos = 106, Name = ''T'', ObjCell = 0\<rparr>) None None)]"
      "getObj (heap p') \<lparr>NamePos = NoPos, Name = ''self'', ObjCell = 1\<rparr> = ObjAt 0"
      "scopeAt (heap p') (Some 1)
         = Some \<lparr>Outer = Some 0, Objects = [''self'' \<mapsto> ObjAt 0]\<rparr>"
    by (simp add: run_defs run_prods atDecls_def demoMethod_def)
  from C5_receiver [OF r h] h r f
  show ?thesis
    by (simp add: run_defs atDecls_def demoMethod_def)
qed

section \<open>Functions in the package scope\<close>

text \<open>
  What the receiver and the name of a function declaration leave alone: the package scope
  of the parser, and every scope other than the one they are given.
\<close>

lemma error_scoping:
  "error p ps msg = Inr p' \<Longrightarrow> heap p' = heap p \<and> pkgScope p' = pkgScope p"
  by (auto simp: error_def Let_def split: if_splits)

lemma declareIdent_others:
  assumes "declareIdent decl data (Some a) kind ident p = Inr p'"
  shows "pkgScope p' = pkgScope p \<and> length (scopes (heap p')) = length (scopes (heap p))
         \<and> (\<forall>r. r \<noteq> a \<longrightarrow> scopes (heap p') ! r = scopes (heap p) ! r)"
  using assms
  by (auto simp: declareIdent_def Let_def setObj_def scopeAt_def
           dest!: error_scoping split: sum.splits option.splits if_splits)

lemma resolve_others:
  assumes "resolve x p = Inr p'"
  shows "pkgScope p' = pkgScope p \<and> scopes (heap p') = scopes (heap p)"
  using assms
  by (auto simp: resolve_def tryResolve_def Let_def setObj_def
           split: expr.splits sum.splits if_splits)

lemma parseReceiver_others:
  assumes "parseReceiver ty (Some a) p = Inr (fld, p')"
  shows "pkgScope p' = pkgScope p \<and> length (scopes (heap p')) = length (scopes (heap p))
         \<and> (\<forall>r. r \<noteq> a \<longrightarrow> scopes (heap p') ! r = scopes (heap p) ! r)"
proof -
  let ?q = "snd (newIdent NoPos ''self'' p)"
  let ?i = "fst (newIdent NoPos ''self'' p)"
  let ?f = "Field None [?i] ty None None"
  from assms obtain p2 where
    d: "declareIdent (FieldNode ?f) NoData (Some a) Var ?i ?q = Inr p2"
    and r: "p' = p2 \<or> (\<exists>t. resolve (Ident t) p2 = Inr p')"
    by (auto simp: parseReceiver_def Let_def split: prod.splits sum.splits expr.splits)
  have q: "pkgScope ?q = pkgScope p" "scopes (heap ?q) = scopes (heap p)"
    by (simp_all add: newIdent_def)
  from r show ?thesis
  proof
    assume "p' = p2"
    then show ?thesis
      using declareIdent_others [OF d] q by simp
  next
    assume "\<exists>t. resolve (Ident t) p2 = Inr p'"
    then obtain t where "resolve (Ident t) p2 = Inr p'" ..
    from resolve_others [OF this] declareIdent_others [OF d] q
    show ?thesis by simp
  qed
qed

lemma parseIdent_others:
  assumes "parseIdent p = Inr (i, p')"
  shows "pkgScope p' = pkgScope p \<and> scopes (heap p') = scopes (heap p)"
  using assms by (simp add: parseIdent_Inr next_tok_scoping)

lemma parseFuncName_others:
  assumes "parseFuncName (Some a) p = Inr ((recv, nm), p3)"
  shows "pkgScope p3 = pkgScope p \<and> length (scopes (heap p3)) = length (scopes (heap p))
         \<and> (\<forall>r. r \<noteq> a \<longrightarrow> scopes (heap p3) ! r = scopes (heap p) ! r)"
proof (cases "tok p = MUL")
  case True
  from assms True obtain t q2 fld q3 where
    i: "parseIdent (next_tok p) = Inr (t, q2)"
    and r: "parseReceiver (StarExpr (pos p) (Ident t)) (Some a) q2 = Inr (fld, q3)"
    and n: "parseIdent (next_tok q3) = Inr (nm, p3)"
    by (auto simp: parseFuncName_def expect_Inr split: sum.splits)
  from parseIdent_others [OF i] parseReceiver_others [OF r] parseIdent_others [OF n]
  show ?thesis
    by (simp add: next_tok_scoping next_tok_heap)
next
  case False
  from assms False obtain t q1 where i: "parseIdent p = Inr (t, q1)"
    by (auto simp: parseFuncName_def split: sum.splits)
  show ?thesis
  proof (cases "tok q1 = PERIOD")
    case True
    from assms False i True obtain fld q2 where
      r: "parseReceiver (Ident t) (Some a) q1 = Inr (fld, q2)"
      and n: "parseIdent (next_tok q2) = Inr (nm, p3)"
      by (auto simp: parseFuncName_def split: sum.splits)
    from parseIdent_others [OF i] parseReceiver_others [OF r] parseIdent_others [OF n]
    show ?thesis
      by (simp add: next_tok_scoping next_tok_heap)
  next
    case f: False
    from assms False i f have "p3 = q1"
      by (auto simp: parseFuncName_def split: sum.splits)
    then show ?thesis
      using parseIdent_others [OF i] by simp
  qed
qed

lemma declareIdent_declared:
  assumes "declareIdent decl data sc kind ident p = Inr p'" and "Name ident \<noteq> ''_''"
  shows "pkgScope p' = pkgScope p
         \<and> (\<exists>s. scopeAt (heap p') sc = Some s \<and> Lookup s (Name ident) \<noteq> ObjNil)"
proof -
  define h1 where "h1 = setObj ident (ObjAt (length (objects (heap p))))
     ((heap p)\<lparr>objects := objects (heap p)
        @ [(NewObj kind (Name ident))\<lparr>ObjDecl := decl, ObjData := data\<rparr>]\<rparr>)"
  from assms obtain r s where sc: "sc = Some r" and s: "scopeAt h1 (Some r) = Some s"
    by (auto simp: declareIdent_def Let_def h1_def
             split: sum.splits option.splits if_splits)
  define s' where "s' = snd (Insert s (Name ident) (ObjAt (length (objects (heap p)))))"
  define h2 where "h2 = h1\<lparr>scopes := (scopes h1)[r := s']\<rparr>"
  have l: "Lookup s' (Name ident) \<noteq> ObjNil"
    by (auto simp: s'_def Insert_def Lookup_def Let_def split: option.splits)
  have a: "scopeAt h2 (Some r) = Some s'"
    using s by (auto simp: h2_def scopeAt_def split: if_splits)
  have "heap p' = h2 \<and> pkgScope p' = pkgScope p"
    using assms sc s
    by (auto simp: declareIdent_def Let_def h1_def [symmetric] h2_def s'_def
             dest: error_scoping split: sum.splits if_splits)
  then show ?thesis
    using a l sc by auto
qed

text \<open>
  Claim C10.  \<^verbatim>\<open>parseFuncDecl\<close> goes from the state after \<^verbatim>\<open>func\<close>, with the new function scope,
  through the receiver and name, the signature and the body, each starting where the one
  before ended.  The receiver and the name leave the scopes that were there as they were, the
  package scope among them; the signature and the body are parsed in the function scope.
  After the body, the name of a declaration without receiver, other than \<^verbatim>\<open>init\<close>, is declared
  as a function in the package scope, which then has the name unless it is blank; for a method
  and for \<^verbatim>\<open>init\<close> nothing more is done, and the parser is left as the body left it.
\<close>

theorem C10_funcDecl_pkgScope:
  assumes "parseFuncDecl G p = Inr (d, p')"
  shows "\<exists>recv p3 p4 p5.
           parseFuncName (Some (length (scopes (heap p))))
               ((next_tok p)\<lparr>heap := (heap p)\<lparr>scopes := scopes (heap p)
                    @ [\<lparr>Outer = topScope (next_tok p), Objects = Map.empty\<rparr>]\<rparr>\<rparr>)
             = Inr ((recv, FuncName d), p3)
           \<and> parseSignature G (Some (length (scopes (heap p)))) p3
               = Inr ((Params (FuncTyp d), Results (FuncTyp d)), p4)
           \<and> parseBody G (Some (length (scopes (heap p)))) p4 = Inr (the (Body d), p5)
           \<and> (Recv d = None) = (recv = None)
           \<and> pkgScope p3 = pkgScope p
           \<and> (\<forall>r < length (scopes (heap p)).
                 scopeAt (heap p3) (Some r) = scopeAt (heap p) (Some r))
           \<and> (if Recv d = None \<and> Name (FuncName d) \<noteq> ''init''
               then declareIdents (DeclNode d) NoData (pkgScope p5) Fun [FuncName d] p5 = Inr p'
                    \<and> pkgScope p' = pkgScope p5
                    \<and> (Name (FuncName d) = ''_''
                        \<or> (\<exists>s. scopeAt (heap p') (pkgScope p') = Some s
                                \<and> Lookup s (Name (FuncName d)) \<noteq> ObjNil))
               else p' = p5)"
proof -
  let ?p1 = "next_tok p"
  let ?a = "length (scopes (heap p))"
  let ?h = "(heap p)\<lparr>scopes := scopes (heap p) @ [\<lparr>Outer = topScope ?p1, Objects = Map.empty\<rparr>]\<rparr>"
  let ?p2 = "?p1\<lparr>heap := ?h\<rparr>"
  from assms have e1: "expect p FUNC = Inr (pos p, ?p1)"
    by (auto simp: parseFuncDecl_def Let_def expect_Inr split: sum.splits)
  have ns: "NewScope (topScope ?p1) (heap ?p1) = (?a, ?h)"
    by (simp add: NewScope_def next_tok_heap)
  from assms obtain recv ident p3
    where fn: "parseFuncName (Some ?a) ?p2 = Inr ((recv, ident), p3)"
    by (simp only: parseFuncDecl_def Let_def e1 ns sum.case prod.case)
       (auto split: sum.splits)
  from assms obtain params results p4
    where sg: "parseSignature G (Some ?a) p3 = Inr ((params, results), p4)"
    by (simp only: parseFuncDecl_def Let_def e1 ns fn sum.case prod.case)
       (auto split: sum.splits)
  from assms obtain body p5
    where b: "parseBody G (Some ?a) p4 = Inr (body, p5)"
    by (simp only: parseFuncDecl_def Let_def e1 ns fn sg sum.case prod.case)
       (auto split: sum.splits)
  define d0 where "d0 = FuncDecl (leadComment p)
     (case recv of None \<Rightarrow> None
      | Some r \<Rightarrow> Some (FieldList (pos ?p2) [r] (pos p3)))
     ident (FuncType (pos p) params results) (Some body)"
  have fin: "(if recv = None \<and> Name ident \<noteq> ''init''
              then (case declareIdents (DeclNode d0) NoData (pkgScope p5) Fun [ident] p5 of
                      Inl e \<Rightarrow> Inl e
                    | Inr p6 \<Rightarrow> Inr (d0, p6))
              else Inr (d0, p5)) = Inr (d, p')"
    using assms
    by (simp only: parseFuncDecl_def Let_def e1 ns fn sg b d0_def sum.case prod.case)
  have d: "d = d0"
    using fin by (auto split: if_splits sum.splits)
  have t: "if recv = None \<and> Name ident \<noteq> ''init''
           then declareIdents (DeclNode d) NoData (pkgScope p5) Fun [ident] p5 = Inr p'
           else p' = p5"
    using fin d by (auto split: if_splits sum.splits)
  have r: "(Recv d = None) = (recv = None)"
    by (simp add: d d0_def split: option.splits)
  have n: "FuncName d = ident" "Body d = Some body" "Params (FuncTyp d) = params"
    "Results (FuncTyp d) = results"
    by (simp_all add: d d0_def)
  from parseFuncName_others [OF fn]
  have o: "pkgScope p3 = pkgScope p" "length (scopes (heap p3)) = Suc ?a"
    "\<forall>r. r \<noteq> ?a \<longrightarrow> scopes (heap p3) ! r = scopes ?h ! r"
    by (simp_all add: next_tok_scoping)
  have sc: "scopeAt (heap p3) (Some r) = scopeAt (heap p) (Some r)" if "r < ?a" for r
    using that o by (simp add: scopeAt_def nth_append)
  have tail: "if Recv d = None \<and> Name (FuncName d) \<noteq> ''init''
      then declareIdents (DeclNode d) NoData (pkgScope p5) Fun [FuncName d] p5 = Inr p'
           \<and> pkgScope p' = pkgScope p5
           \<and> (Name (FuncName d) = ''_''
               \<or> (\<exists>s. scopeAt (heap p') (pkgScope p') = Some s
                       \<and> Lookup s (Name (FuncName d)) \<noteq> ObjNil))
      else p' = p5"
  proof (cases "recv = None \<and> Name ident \<noteq> ''init''")
    case True
    then have e: "declareIdent (DeclNode d) NoData (pkgScope p5) Fun ident p5 = Inr p'"
      using t by (auto split: sum.splits)
    have k: "Name ident = ''_'' \<or> pkgScope p' = pkgScope p5
        \<and> (\<exists>s. scopeAt (heap p') (pkgScope p5) = Some s \<and> Lookup s (Name ident) \<noteq> ObjNil)"
      using declareIdent_declared [OF e] by auto
    have "pkgScope p' = pkgScope p5"
    proof (cases "Name ident = ''_''")
      case True
      then show ?thesis
        using e by (auto simp: declareIdent_def Let_def split: sum.splits)
    next
      case False
      then show ?thesis
        using k by simp
    qed
    then show ?thesis
      using True t r n k by auto
  next
    case False
    then show ?thesis
      using t r n by auto
  qed
  have chain: "parseFuncName (Some ?a) ?p2 = Inr ((recv, FuncName d), p3)
        \<and> parseSignature G (Some ?a) p3 = Inr ((Params (FuncTyp d), Results (FuncTyp d)), p4)
        \<and> parseBody G (Some ?a) p4 = Inr (the (Body d), p5)
        \<and> (Recv d = None) = (recv = None)
        \<and> pkgScope p3 = pkgScope p
        \<and> (\<forall>r < ?a. scopeAt (heap p3) (Some r) = scopeAt (heap p) (Some r))"
    using fn sg b r n o(1) sc by simp
  show ?thesis
    apply (rule exI [of _ recv], rule exI [of _ p3], rule exI [of _ p4], rule exI [of _ p5])
    apply (insert chain tail)
    apply (elim conjE)
    apply (intro conjI)
          apply assumption+
    done
qed

text \<open>
  After \<^verbatim>\<open>func f(): return\<close> the package scope has \<^verbatim>\<open>f\<close>; after \<^verbatim>\<open>func init(): return\<close>
  it does not have \<^verbatim>\<open>init\<close>, and after \<^verbatim>\<open>func T.m(): return\<close> it does not have \<^verbatim>\<open>m\<close>.
\<close>

theorem C10_funcDecl_pkgScope_witness:
  "(case parseFuncDecl noGrammar (atDecls demoFunc 201 {}) of
      Inl e \<Rightarrow> False
    | Inr (d, p') \<Rightarrow>
        Recv d = None \<and> Name (FuncName d) = ''f''
        \<and> (\<exists>s. scopeAt (heap p') (pkgScope p') = Some s \<and> Lookup s ''f'' \<noteq> ObjNil))
   \<and> (case parseFuncDecl noGrammar (atDecls demoInit 201 {}) of
         Inl e \<Rightarrow> False
       | Inr (d, p') \<Rightarrow>
           Recv d = None \<and> Name (FuncName d) = ''init''
           \<and> (\<exists>s. scopeAt (heap p') (pkgScope p') = Some s \<and> Lookup s ''init'' = ObjNil))
   \<and> (case parseFuncDecl noGrammar (atDecls demoMethod 201 {}) of
         Inl e \<Rightarrow> False
       | Inr (d, p') \<Rightarrow>
           Recv d \<noteq> None \<and> Name (FuncName d) = ''m''
           \<and> (\<exists>s. scopeAt (heap p') (pkgScope p') = Some s \<and> Lookup s ''m'' = ObjNil))"
proof -
  obtain d p' where r: "parseFuncDecl noGrammar (atDecls demoFunc 201 {}) = Inr (d, p')"
    and f: "Recv d = None" "Name (FuncName d) = ''f''"
    by (simp add: run_defs run_prods atDecls_def demoFunc_def)
  have a: "\<exists>s. scopeAt (heap p') (pkgScope p') = Some s \<and> Lookup s ''f'' \<noteq> ObjNil"
    using C10_funcDecl_pkgScope [OF r] f by auto
  have b: "(case parseFuncDecl noGrammar (atDecls demoInit 201 {}) of
         Inl e \<Rightarrow> False
       | Inr (d, p') \<Rightarrow>
           Recv d = None \<and> Name (FuncName d) = ''init''
           \<and> (\<exists>s. scopeAt (heap p') (pkgScope p') = Some s \<and> Lookup s ''init'' = ObjNil))"
    by (simp add: run_defs run_prods atDecls_def demoInit_def)
  have c: "(case parseFuncDecl noGrammar (atDecls demoMethod 201 {}) of
         Inl e \<Rightarrow> False
       | Inr (d, p') \<Rightarrow>
           Recv d \<noteq> None \<and> Name (FuncName d) = ''m''
           \<and> (\<exists>s. scopeAt (heap p') (pkgScope p') = Some s \<and> Lookup s ''m'' = ObjNil))"
    by (simp add: run_defs run_prods atDecls_def demoMethod_def)
  show ?thesis
    using r f a b c by simp
qed

section \<open>Calls with a trailing function\<close>

text \<open>The loop over the arguments ends when no argument gives tokens back to the scanner.\<close>

lemma error_input: "error p ps msg = Inr p' \<Longrightarrow> input p' = input p \<and> tok p' = tok p"
  by (auto simp: error_def Let_def split: if_splits)

lemma atComma_input:
  "atComma p c = Inr (comma, p') \<Longrightarrow> input p' = input p \<and> tok p' = tok p"
  by (auto simp: atComma_def dest: error_input split: if_splits sum.splits)

lemma parseArgs_returns:
  assumes g: "\<And>q x q'. parseRhsOrType G q = Inr (x, q') \<Longrightarrow> length (input q') \<le> length (input q)"
  shows "parseArgs G list ellipsis p \<noteq> None"
proof (induction "length (input p)" arbitrary: list ellipsis p rule: less_induct)
  case less
  show ?case
  proof (cases "tok p \<noteq> RPAREN \<and> tok p \<noteq> EOF \<and> \<not> IsValid ellipsis")
    case False
    then show ?thesis
      by (subst parseArgs.simps) auto
  next
    case True
    show ?thesis
    proof (cases "parseRhsOrType G p")
      case (Inl e)
      then show ?thesis
        using True by (subst parseArgs.simps) simp
    next
      case (Inr r)
      obtain x p1 where r: "r = (x, p1)" by (cases r)
      let ?e = "if tok p1 = ELLIPSIS then pos p1 else ellipsis"
      let ?p2 = "if tok p1 = ELLIPSIS then next_tok p1 else p1"
      have l1: "length (input p1) \<le> length (input p)"
        using g Inr r by simp
      have l2: "length (input ?p2) \<le> length (input p)"
        using l1 input_next_tok [of p1] by auto
      show ?thesis
      proof (cases "atComma ?p2 ''argument list''")
        case (Inl e)
        then show ?thesis
          using True Inr r by (subst parseArgs.simps) (simp add: Let_def)
      next
        case c: (Inr cr)
        obtain comma p3 where cr: "cr = (comma, p3)" by (cases cr)
        have l3: "length (input p3) \<le> length (input p)"
          using atComma_input [of ?p2 "''argument list''" comma p3] c cr l2 by simp
        have step: "parseArgs G list ellipsis p
            = (if \<not> comma then Some (Inr ((list @ [x], ?e), p3))
               else parseArgs G (list @ [x]) ?e (next_tok p3))"
          using True Inr r c cr by (subst parseArgs.simps) (simp add: Let_def)
        show ?thesis
        proof (cases comma)
          case False
          then show ?thesis by (simp add: step)
        next
          case t: True
          show ?thesis
          proof (cases "input p3 = []")
            case True
            then have "tok (next_tok p3) = EOF"
              by (rule next_tok_at_end)
            then have "parseArgs G (list @ [x]) ?e (next_tok p3) \<noteq> None"
              by (subst parseArgs.simps) simp
            then show ?thesis
              using t by (simp add: step)
          next
            case False
            then have "length (input (next_tok p3)) < length (input p)"
              using input_next_tok [of p3] l3 by (cases "input p3") auto
            then have "parseArgs G (list @ [x]) ?e (next_tok p3) \<noteq> None"
              by (rule less)
            then show ?thesis
              using t by (simp add: step)
          qed
        qed
      qed
    qed
  qed
qed

text \<open>
  Claim C4, as the code has it. First, \<^verbatim>\<open>parseCallOrConversion\<close> returns or panics when the
  production for an argument gives no tokens back. Second, it returns the call \<open>x\<close> exactly
  when it is at a parenthesis, the arguments \<open>list\<close> are read and the closing parenthesis is,
  and then: if the token after the closing parenthesis is \<^verbatim>\<open>do\<close>, a signature and a body are
  parsed from there in a new function scope and \<open>x\<close> has the arguments \<open>list\<close> and one more
  after them, the function literal of that signature and that body, its type at the position
  of \<^verbatim>\<open>do\<close>; if not, \<open>x\<close> has the arguments \<open>list\<close>. The ellipsis of the arguments is kept in
  both cases. Third, the printer: a call with a valid ellipsis is written with all its
  arguments in the parentheses and the ellipsis after them; a call without, whose last
  argument is a function literal, is written as the function, the other arguments in
  parentheses, a blank and \<^verbatim>\<open>do\<close>, the signature of the literal and its body; another call
  has its arguments in the parentheses.
\<close>

theorem C4_do_call:
  "((\<forall>q x q'. parseRhsOrType G q = Inr (x, q') \<longrightarrow> length (input q') \<le> length (input q))
      \<longrightarrow> parseCallOrConversion G fn p \<noteq> None)
   \<and> (\<forall>x p'. (parseCallOrConversion G fn p = Some (Inr (x, p'))) =
         (tok p = LPAREN
          \<and> (\<exists>list ellipsis p2 rparen p3.
                parseArgs G [] NoPos ((next_tok p)\<lparr>exprLev := exprLev (next_tok p) + 1\<rparr>)
                  = Some (Inr ((list, ellipsis), p2))
              \<and> expectClosing (p2\<lparr>exprLev := exprLev p2 - 1\<rparr>) RPAREN ''argument list''
                  = Inr (rparen, p3)
              \<and> (if tok p3 = DO
                  then \<exists>params results q2 body q3.
                         parseSignature G (Some (length (scopes (heap (next_tok p3)))))
                             ((next_tok p3)\<lparr>heap := (heap (next_tok p3))\<lparr>scopes :=
                                scopes (heap (next_tok p3))
                                  @ [\<lparr>Outer = topScope (next_tok p3), Objects = Map.empty\<rparr>]\<rparr>\<rparr>)
                           = Inr ((params, results), q2)
                       \<and> parseBody G (Some (length (scopes (heap (next_tok p3)))))
                             (q2\<lparr>exprLev := exprLev q2 + 1\<rparr>)
                           = Inr (body, q3)
                       \<and> x = CallExpr fn (pos p)
                               (list @ [FuncLit (FuncType (pos p3) params results) body])
                               ellipsis rparen
                       \<and> p' = q3\<lparr>exprLev := exprLev q3 - 1\<rparr>
                  else x = CallExpr fn (pos p) list ellipsis rparen \<and> p' = p3))))
   \<and> expr1_CallExpr P (CallExpr f lparen args ellipsis rparen) prec1 depth s
       = (let x = CallExpr f lparen args ellipsis rparen;
              d = (if length args > 1 then depth + 1 else depth);
              s0 = print P [APos (ExprPos P x)] s;
              s1 = (case f of
                      FuncTypeExpr t \<Rightarrow>
                        print P [ATok RPAREN]
                          (expr1 P f (HighestPrec P) d (print P [ATok LPAREN] s0))
                    | _ \<Rightarrow> expr1 P f (HighestPrec P) d s0);
              s2 = print P [APos lparen, ATok LPAREN] s1
          in if IsValid ellipsis then
               (let s3 = exprList P lparen args d 0 ellipsis s2;
                    s4 = print P [APos ellipsis, ATok ELLIPSIS] s3;
                    s5 = (if IsValid rparen \<and> lineFor P ellipsis s4 < lineFor P rparen s4
                          then print P [ATok COMMA, AWs formfeed] s4 else s4)
                in print P [APos rparen, ATok RPAREN] s5)
             else if args \<noteq> [] \<and> (\<exists>ty body. last args = FuncLit ty body) then
               (let s3 = exprList P lparen (butlast args) d commaTerm rparen s2;
                    s4 = print P [APos rparen, ATok RPAREN] s3;
                    s5 = print P [AWs blank, ATok DO] s4;
                    s6 = (case last args of
                            FuncLit ty body \<Rightarrow> signature P (Params ty) (Results ty) s5
                          | _ \<Rightarrow> s5)
                in (case last args of FuncLit ty body \<Rightarrow> adjBlock P body s6 | _ \<Rightarrow> s6))
             else if args \<noteq> [] then
               print P [APos rparen, ATok RPAREN]
                 (exprList P lparen args d commaTerm rparen s2)
             else print P [APos rparen, ATok RPAREN] s2)"
proof -
  let ?p1 = "(next_tok p)\<lparr>exprLev := exprLev (next_tok p) + 1\<rparr>"
  have ret: "parseCallOrConversion G fn p \<noteq> None"
    if "\<forall>q x q'. parseRhsOrType G q = Inr (x, q') \<longrightarrow> length (input q') \<le> length (input q)"
  proof -
    have "parseArgs G [] NoPos q \<noteq> None" for q
      using parseArgs_returns [of G] that by blast
    then have "\<exists>y. parseArgs G [] NoPos q = Some y" for q
      by auto
    then have "case_option None k (parseArgs G [] NoPos q) \<noteq> None"
      if "\<And>y. k y \<noteq> None" for q and k :: "(expr list \<times> Pos) result \<Rightarrow> (expr result) option"
      using that by (metis option.simps(5))
    then show ?thesis
      unfolding parseCallOrConversion_def
      by (auto split: sum.splits prod.splits)
  qed
  have chr: "(parseCallOrConversion G fn p = Some (Inr (x, p'))) =
         (tok p = LPAREN
          \<and> (\<exists>list ellipsis p2 rparen p3.
                parseArgs G [] NoPos ?p1 = Some (Inr ((list, ellipsis), p2))
              \<and> expectClosing (p2\<lparr>exprLev := exprLev p2 - 1\<rparr>) RPAREN ''argument list''
                  = Inr (rparen, p3)
              \<and> (if tok p3 = DO
                  then \<exists>params results q2 body q3.
                         parseSignature G (Some (length (scopes (heap (next_tok p3)))))
                             ((next_tok p3)\<lparr>heap := (heap (next_tok p3))\<lparr>scopes :=
                                scopes (heap (next_tok p3))
                                  @ [\<lparr>Outer = topScope (next_tok p3), Objects = Map.empty\<rparr>]\<rparr>\<rparr>)
                           = Inr ((params, results), q2)
                       \<and> parseBody G (Some (length (scopes (heap (next_tok p3)))))
                             (q2\<lparr>exprLev := exprLev q2 + 1\<rparr>)
                           = Inr (body, q3)
                       \<and> x = CallExpr fn (pos p)
                               (list @ [FuncLit (FuncType (pos p3) params results) body])
                               ellipsis rparen
                       \<and> p' = q3\<lparr>exprLev := exprLev q3 - 1\<rparr>
                  else x = CallExpr fn (pos p) list ellipsis rparen \<and> p' = p3)))"
    (is "?L = (_ \<and> ?R)") for x p'
  proof (cases "tok p = LPAREN")
    case False
    then have "expect p LPAREN \<noteq> Inr r" for r
      by (cases r) (simp add: expect_Inr)
    then have "\<not> ?L"
      by (auto simp: parseCallOrConversion_def split: sum.splits)
    then show ?thesis
      using False by simp
  next
    case True
    then have e: "expect p LPAREN = Inr (pos p, next_tok p)"
      by (simp add: expect_Inr)
    have d: "(parseDo G list p3 = Inr (list', p')) =
        (if tok p3 = DO
         then \<exists>params results q2 body q3.
                parseSignature G (Some (length (scopes (heap (next_tok p3)))))
                    ((next_tok p3)\<lparr>heap := (heap (next_tok p3))\<lparr>scopes :=
                       scopes (heap (next_tok p3))
                         @ [\<lparr>Outer = topScope (next_tok p3), Objects = Map.empty\<rparr>]\<rparr>\<rparr>)
                  = Inr ((params, results), q2)
              \<and> parseBody G (Some (length (scopes (heap (next_tok p3)))))
                    (q2\<lparr>exprLev := exprLev q2 + 1\<rparr>)
                  = Inr (body, q3)
              \<and> list' = list @ [FuncLit (FuncType (pos p3) params results) body]
              \<and> p' = q3\<lparr>exprLev := exprLev q3 - 1\<rparr>
         else list' = list \<and> p' = p3)" for list list' p3
    proof (cases "tok p3 = DO")
      case False
      then show ?thesis by (auto simp: parseDo_def)
    next
      case True
      then have ed: "expect p3 DO = Inr (pos p3, next_tok p3)"
        by (simp add: expect_Inr)
      show ?thesis
        using True
        by (auto simp: parseDo_def ed NewScope_def split: sum.splits)
    qed
    show ?thesis
    proof
      assume l: ?L
      from l obtain list ellipsis p2 where
        ar: "parseArgs G [] NoPos ?p1 = Some (Inr ((list, ellipsis), p2))"
        by (simp only: parseCallOrConversion_def e sum.case prod.case)
           (auto split: option.splits sum.splits)
      from l obtain rparen p3 where
        ec: "expectClosing (p2\<lparr>exprLev := exprLev p2 - 1\<rparr>) RPAREN ''argument list''
               = Inr (rparen, p3)"
        by (simp only: parseCallOrConversion_def e ar sum.case prod.case option.case)
           (auto split: sum.splits)
      from l obtain list' where
        pd: "parseDo G list p3 = Inr (list', p')"
        and x: "x = CallExpr fn (pos p) list' ellipsis rparen"
        by (simp only: parseCallOrConversion_def e ar ec sum.case prod.case option.case)
           (auto split: sum.splits)
      have "if tok p3 = DO
            then \<exists>params results q2 body q3.
                   parseSignature G (Some (length (scopes (heap (next_tok p3)))))
                       ((next_tok p3)\<lparr>heap := (heap (next_tok p3))\<lparr>scopes :=
                          scopes (heap (next_tok p3))
                            @ [\<lparr>Outer = topScope (next_tok p3), Objects = Map.empty\<rparr>]\<rparr>\<rparr>)
                     = Inr ((params, results), q2)
                 \<and> parseBody G (Some (length (scopes (heap (next_tok p3)))))
                       (q2\<lparr>exprLev := exprLev q2 + 1\<rparr>)
                     = Inr (body, q3)
                 \<and> x = CallExpr fn (pos p)
                         (list @ [FuncLit (FuncType (pos p3) params results) body])
                         ellipsis rparen
                 \<and> p' = q3\<lparr>exprLev := exprLev q3 - 1\<rparr>
            else x = CallExpr fn (pos p) list ellipsis rparen \<and> p' = p3"
        using pd unfolding d x by (auto split: if_splits)
      then have ?R
        using ar ec by blast
      then show "tok p = LPAREN \<and> ?R"
        using True by simp
    next
      assume "tok p = LPAREN \<and> ?R"
      then obtain list ellipsis p2 rparen p3 where
        ar: "parseArgs G [] NoPos ?p1 = Some (Inr ((list, ellipsis), p2))"
        and ec: "expectClosing (p2\<lparr>exprLev := exprLev p2 - 1\<rparr>) RPAREN ''argument list''
               = Inr (rparen, p3)"
        and k: "if tok p3 = DO
            then \<exists>params results q2 body q3.
                   parseSignature G (Some (length (scopes (heap (next_tok p3)))))
                       ((next_tok p3)\<lparr>heap := (heap (next_tok p3))\<lparr>scopes :=
                          scopes (heap (next_tok p3))
                            @ [\<lparr>Outer = topScope (next_tok p3), Objects = Map.empty\<rparr>]\<rparr>\<rparr>)
                     = Inr ((params, results), q2)
                 \<and> parseBody G (Some (length (scopes (heap (next_tok p3)))))
                       (q2\<lparr>exprLev := exprLev q2 + 1\<rparr>)
                     = Inr (body, q3)
                 \<and> x = CallExpr fn (pos p)
                         (list @ [FuncLit (FuncType (pos p3) params results) body])
                         ellipsis rparen
                 \<and> p' = q3\<lparr>exprLev := exprLev q3 - 1\<rparr>
            else x = CallExpr fn (pos p) list ellipsis rparen \<and> p' = p3"
        by blast
      from k obtain list' where pd: "parseDo G list p3 = Inr (list', p')"
        and x: "x = CallExpr fn (pos p) list' ellipsis rparen"
        unfolding d by (auto split: if_splits)
      show ?L
        by (simp add: parseCallOrConversion_def e ar ec pd x)
    qed
  qed
  have prt: "expr1_CallExpr P (CallExpr f lparen args ellipsis rparen) prec1 depth s
       = (let x = CallExpr f lparen args ellipsis rparen;
              d = (if length args > 1 then depth + 1 else depth);
              s0 = print P [APos (ExprPos P x)] s;
              s1 = (case f of
                      FuncTypeExpr t \<Rightarrow>
                        print P [ATok RPAREN]
                          (expr1 P f (HighestPrec P) d (print P [ATok LPAREN] s0))
                    | _ \<Rightarrow> expr1 P f (HighestPrec P) d s0);
              s2 = print P [APos lparen, ATok LPAREN] s1
          in if IsValid ellipsis then
               (let s3 = exprList P lparen args d 0 ellipsis s2;
                    s4 = print P [APos ellipsis, ATok ELLIPSIS] s3;
                    s5 = (if IsValid rparen \<and> lineFor P ellipsis s4 < lineFor P rparen s4
                          then print P [ATok COMMA, AWs formfeed] s4 else s4)
                in print P [APos rparen, ATok RPAREN] s5)
             else if args \<noteq> [] \<and> (\<exists>ty body. last args = FuncLit ty body) then
               (let s3 = exprList P lparen (butlast args) d commaTerm rparen s2;
                    s4 = print P [APos rparen, ATok RPAREN] s3;
                    s5 = print P [AWs blank, ATok DO] s4;
                    s6 = (case last args of
                            FuncLit ty body \<Rightarrow> signature P (Params ty) (Results ty) s5
                          | _ \<Rightarrow> s5)
                in (case last args of FuncLit ty body \<Rightarrow> adjBlock P body s6 | _ \<Rightarrow> s6))
             else if args \<noteq> [] then
               print P [APos rparen, ATok RPAREN]
                 (exprList P lparen args d commaTerm rparen s2)
             else print P [APos rparen, ATok RPAREN] s2)"
    by (cases "last args") (auto simp: expr1_CallExpr_def Let_def)
  show ?thesis
    using ret chr prt by blast
qed

text \<open>
  The call \<^verbatim>\<open>f(a, b) do (): return\<close> is parsed to a call of three arguments, the last the
  function literal, and printed with \<^verbatim>\<open>do\<close>.
\<close>

theorem C4_do_call_witness:
  "(case parseIdent (openScope (init demoFile (scan 1 IDENT ''f'' # demoCall2) 101 {})) of
      Inl e \<Rightarrow> False
    | Inr (f, p) \<Rightarrow>
        (case parseCallOrConversion identArgs (Ident f) p of
           Some (Inr (x, p')) \<Rightarrow>
             x = CallExpr (Ident \<lparr>NamePos = 1, Name = ''f'', ObjCell = 0\<rparr>) 2
                   [Ident \<lparr>NamePos = 3, Name = ''a'', ObjCell = 1\<rparr>,
                    Ident \<lparr>NamePos = 6, Name = ''b'', ObjCell = 2\<rparr>,
                    FuncLit (FuncType 9 (Some (FieldList 12 [] 13)) None)
                      (BlockStmt 14 [ReturnStmt 16 []] 101 True)]
                   NoPos 7
             \<and> expr1_CallExpr logPrinter x 0 0 []
                 = [Printed [APos 1],
                    Expr1 (Ident \<lparr>NamePos = 1, Name = ''f'', ObjCell = 0\<rparr>) 7 1,
                    Printed [APos 2, ATok LPAREN],
                    ExprList 2 [Ident \<lparr>NamePos = 3, Name = ''a'', ObjCell = 1\<rparr>,
                                Ident \<lparr>NamePos = 6, Name = ''b'', ObjCell = 2\<rparr>] 1 commaTerm 7,
                    Printed [APos 7, ATok RPAREN],
                    Printed [AWs blank, ATok DO],
                    Signature (Some (FieldList 12 [] 13)) None,
                    AdjBlock (BlockStmt 14 [ReturnStmt 16 []] 101 True)]
         | _ \<Rightarrow> False))"
proof -
  let ?f = "Ident \<lparr>NamePos = 1, Name = ''f'', ObjCell = 0\<rparr>"
  let ?a = "Ident \<lparr>NamePos = 3, Name = ''a'', ObjCell = 1\<rparr>"
  let ?b = "Ident \<lparr>NamePos = 6, Name = ''b'', ObjCell = 2\<rparr>"
  let ?lit = "FuncLit (FuncType 9 (Some (FieldList 12 [] 13)) None)
                (BlockStmt 14 [ReturnStmt 16 []] 101 True)"
  let ?x = "CallExpr ?f 2 [?a, ?b, ?lit] NoPos 7"
  obtain f p where i: "parseIdent (openScope (init demoFile (scan 1 IDENT ''f'' # demoCall2) 101 {}))
                         = Inr (f, p)"
    and f: "Ident f = ?f"
    and r: "\<exists>p'. parseCallOrConversion identArgs (Ident f) p = Some (Inr (?x, p'))"
    by (simp add: run_defs run_prods demoCall2_def identArgs_def parseArgs.simps)
  have g: "\<forall>q x q'. parseRhsOrType identArgs q = Inr (x, q')
             \<longrightarrow> length (input q') \<le> length (input q)"
  proof -
    have "length (input (next_tok q)) \<le> length (input q)" for q
      using input_next_tok [of q] by simp
    then show ?thesis
      by (auto simp: identArgs_def parseIdent_Inr split: sum.splits)
  qed
  from C4_do_call [where G = identArgs and fn = "Ident f" and p = p and f = ?f and lparen = 2
                      and args = "[?a, ?b, ?lit]" and ellipsis = NoPos and rparen = 7
                      and P = logPrinter and ?prec1.0 = 0 and depth = 0 and s = "[]"]
  have n: "parseCallOrConversion identArgs (Ident f) p \<noteq> None"
    and pr: "expr1_CallExpr logPrinter ?x 0 0 []
       = [Printed [APos 1], Expr1 ?f 7 1, Printed [APos 2, ATok LPAREN],
          ExprList 2 [?a, ?b] 1 commaTerm 7, Printed [APos 7, ATok RPAREN],
          Printed [AWs blank, ATok DO], Signature (Some (FieldList 12 [] 13)) None,
          AdjBlock (BlockStmt 14 [ReturnStmt 16 []] 101 True)]"
    using g by (simp_all add: logPrinter_def Let_def IsValid_def NoPos_def)
  show ?thesis
    using i r pr by auto
qed

text \<open>
  C4 as stated fails for a call with an ellipsis: \<^verbatim>\<open>f(xs...) do (): return\<close> is parsed to a
  call whose last argument is the function literal and whose ellipsis is valid; the printer
  tests the ellipsis first, and writes the function literal inside the parentheses with the
  other argument, with no \<^verbatim>\<open>do\<close>.
\<close>

theorem C4_counterexample:
  "(case parseIdent (openScope (init demoFile (scan 1 IDENT ''f'' # demoCallEllipsis) 101 {})) of
      Inl e \<Rightarrow> False
    | Inr (f, p) \<Rightarrow>
        (case parseCallOrConversion identArgs (Ident f) p of
           Some (Inr (x, p')) \<Rightarrow>
             x = CallExpr (Ident \<lparr>NamePos = 1, Name = ''f'', ObjCell = 0\<rparr>) 2
                   [Ident \<lparr>NamePos = 3, Name = ''xs'', ObjCell = 1\<rparr>,
                    FuncLit (FuncType 10 (Some (FieldList 13 [] 14)) None)
                      (BlockStmt 15 [ReturnStmt 17 []] 101 True)]
                   5 8
             \<and> expr1_CallExpr logPrinter x 0 0 []
                 = [Printed [APos 1],
                    Expr1 (Ident \<lparr>NamePos = 1, Name = ''f'', ObjCell = 0\<rparr>) 7 1,
                    Printed [APos 2, ATok LPAREN],
                    ExprList 2
                      [Ident \<lparr>NamePos = 3, Name = ''xs'', ObjCell = 1\<rparr>,
                       FuncLit (FuncType 10 (Some (FieldList 13 [] 14)) None)
                         (BlockStmt 15 [ReturnStmt 17 []] 101 True)] 1 0 5,
                    Printed [APos 5, ATok ELLIPSIS],
                    Printed [APos 8, ATok RPAREN]]
             \<and> Printed [AWs blank, ATok DO] \<notin> set (expr1_CallExpr logPrinter x 0 0 [])
         | _ \<Rightarrow> False))"
  by (simp add: run_defs run_prods demoCallEllipsis_def identArgs_def parseArgs.simps
                expr1_CallExpr_def logPrinter_def commaTerm_def)

end
